theory Spec2Isabelle
  imports Main
begin

section \<open>Strings and regular expressions of the patch script\<close>

text \<open>
  The script \<^verbatim>\<open>scripts/patch-drizzle-kit.ts\<close> rewrites the text of one file with
  regular expressions. Text is a \<^typ>\<open>string\<close>: one \<^typ>\<open>char\<close> per code unit, for the
  code units U+0000 to U+00FF. The regular expressions of the script use literals,
  character classes, the quantifiers \<^verbatim>\<open>* + ? *?\<close> on single characters, the
  assertions \<^verbatim>\<open>^ $\<close> and one capturing group; the datatypes below hold exactly that
  fragment, and the matcher is the backtracking matcher of the language: leftmost
  match, greedy quantifiers giving back one character at a time, the lazy quantifier
  taking one more character only when the rest fails.
\<close>

definition isLineTerminator :: "char \<Rightarrow> bool" where
  "isLineTerminator c = (c = CHR ''\<newline>'' \<or> c = CHR 0x0D)"

definition isSpace :: "char \<Rightarrow> bool" where
  "isSpace c = (c \<in> set [CHR 0x09, CHR ''\<newline>'', CHR 0x0B, CHR 0x0C, CHR 0x0D, CHR '' '', CHR 0xA0])"

definition isDigit :: "char \<Rightarrow> bool" where
  "isDigit c = (c \<in> set ''0123456789'')"

definition isWord :: "char \<Rightarrow> bool" where
  "isWord c = (c \<in> set ''abcdefghijklmnopqrstuvwxyzABCDEFGHIJKLMNOPQRSTUVWXYZ0123456789_'')"

datatype atom =
    Chr char       \<comment> \<open>a literal character\<close>
  | OneOf string   \<comment> \<open>\<^verbatim>\<open>[...]\<close>\<close>
  | NotIn string   \<comment> \<open>\<^verbatim>\<open>[^...]\<close>\<close>
  | Space          \<comment> \<open>\<^verbatim>\<open>\s\<close>\<close>
  | Word           \<comment> \<open>\<^verbatim>\<open>\w\<close>\<close>
  | Digit          \<comment> \<open>\<^verbatim>\<open>\d\<close>\<close>
  | Dot            \<comment> \<open>\<^verbatim>\<open>.\<close>: any character but a line terminator\<close>
  | AnyCh          \<comment> \<open>\<^verbatim>\<open>[\s\S]\<close>\<close>

fun accepts :: "atom \<Rightarrow> char \<Rightarrow> bool" where
  "accepts (Chr d) c = (c = d)"
| "accepts (OneOf ds) c = (c \<in> set ds)"
| "accepts (NotIn ds) c = (c \<notin> set ds)"
| "accepts Space c = isSpace c"
| "accepts Word c = isWord c"
| "accepts Digit c = isDigit c"
| "accepts Dot c = (\<not> isLineTerminator c)"
| "accepts AnyCh c = True"

datatype node =
    One atom
  | Star atom      \<comment> \<open>\<^verbatim>\<open>a*\<close>\<close>
  | Plus atom      \<comment> \<open>\<^verbatim>\<open>a+\<close>\<close>
  | Opt atom       \<comment> \<open>\<^verbatim>\<open>a?\<close>\<close>
  | LazyStar atom  \<comment> \<open>\<^verbatim>\<open>a*?\<close>\<close>
  | Bol            \<comment> \<open>\<^verbatim>\<open>^\<close>\<close>
  | Eol            \<comment> \<open>\<^verbatim>\<open>$\<close>\<close>
  | Open           \<comment> \<open>\<^verbatim>\<open>(\<close> of a capturing group\<close>
  | Close          \<comment> \<open>\<^verbatim>\<open>)\<close> of a capturing group\<close>

datatype RegExp = RegExp (source: "node list") (global: bool) (multiline: bool)

definition lit :: "string \<Rightarrow> node list" where
  "lit s = map (\<lambda>c. One (Chr c)) s"

text \<open>
  \<open>atLineStart\<close> and \<open>atLineEnd\<close> are the assertions \<^verbatim>\<open>^\<close> and \<^verbatim>\<open>$\<close>. \<open>prev\<close> is the
  character before the place where the match started, \<open>acc\<close> the characters the match
  has consumed so far, last one first.
\<close>

definition atLineStart :: "bool \<Rightarrow> char option \<Rightarrow> string \<Rightarrow> bool" where
  "atLineStart ml prev acc =
     (case acc of
        c # _ \<Rightarrow> ml \<and> isLineTerminator c
      | [] \<Rightarrow> (case prev of None \<Rightarrow> True | Some c \<Rightarrow> ml \<and> isLineTerminator c))"

definition atLineEnd :: "bool \<Rightarrow> string \<Rightarrow> bool" where
  "atLineEnd ml s = (case s of [] \<Rightarrow> True | c # _ \<Rightarrow> ml \<and> isLineTerminator c)"

text \<open>
  \<open>matchHere ml prev ns acc g caps s\<close> matches the nodes \<open>ns\<close> at the head of \<open>s\<close>.
  It returns the consumed characters (reversed) and the captures, or \<open>None\<close>.
  \<open>g\<close> is the length of \<open>acc\<close> at the last \<open>Open\<close>.
\<close>

fun matchHere ::
  "bool \<Rightarrow> char option \<Rightarrow> node list \<Rightarrow> string \<Rightarrow> nat \<Rightarrow> string list \<Rightarrow> string
     \<Rightarrow> (string \<times> string list) option" where
  "matchHere ml prev [] acc g caps s = Some (acc, caps)"
| "matchHere ml prev (One a # ns) acc g caps [] = None"
| "matchHere ml prev (One a # ns) acc g caps (c # cs) =
     (if accepts a c then matchHere ml prev ns (c # acc) g caps cs else None)"
| "matchHere ml prev (Star a # ns) acc g caps [] = matchHere ml prev ns acc g caps []"
| "matchHere ml prev (Star a # ns) acc g caps (c # cs) =
     (if accepts a c
      then (case matchHere ml prev (Star a # ns) (c # acc) g caps cs of
              Some r \<Rightarrow> Some r
            | None \<Rightarrow> matchHere ml prev ns acc g caps (c # cs))
      else matchHere ml prev ns acc g caps (c # cs))"
| "matchHere ml prev (Plus a # ns) acc g caps [] = None"
| "matchHere ml prev (Plus a # ns) acc g caps (c # cs) =
     (if accepts a c then matchHere ml prev (Star a # ns) (c # acc) g caps cs else None)"
| "matchHere ml prev (Opt a # ns) acc g caps [] = matchHere ml prev ns acc g caps []"
| "matchHere ml prev (Opt a # ns) acc g caps (c # cs) =
     (if accepts a c
      then (case matchHere ml prev ns (c # acc) g caps cs of
              Some r \<Rightarrow> Some r
            | None \<Rightarrow> matchHere ml prev ns acc g caps (c # cs))
      else matchHere ml prev ns acc g caps (c # cs))"
| "matchHere ml prev (LazyStar a # ns) acc g caps [] = matchHere ml prev ns acc g caps []"
| "matchHere ml prev (LazyStar a # ns) acc g caps (c # cs) =
     (case matchHere ml prev ns acc g caps (c # cs) of
        Some r \<Rightarrow> Some r
      | None \<Rightarrow>
          (if accepts a c then matchHere ml prev (LazyStar a # ns) (c # acc) g caps cs
           else None))"
| "matchHere ml prev (Bol # ns) acc g caps s =
     (if atLineStart ml prev acc then matchHere ml prev ns acc g caps s else None)"
| "matchHere ml prev (Eol # ns) acc g caps s =
     (if atLineEnd ml s then matchHere ml prev ns acc g caps s else None)"
| "matchHere ml prev (Open # ns) acc g caps s = matchHere ml prev ns acc (length acc) caps s"
| "matchHere ml prev (Close # ns) acc g caps s =
     matchHere ml prev ns acc g (caps @ [rev (take (length acc - g) acc)]) s"

definition prevOf :: "string \<Rightarrow> char option" where
  "prevOf pre = (case pre of [] \<Rightarrow> None | c # _ \<Rightarrow> Some c)"

text \<open>
  \<open>exec\<close> is the search of \<^verbatim>\<open>RegExp.prototype.exec\<close> from the start of the text: the
  first position where the pattern matches. \<open>pre\<close> is the text before the current
  position, reversed. The result is the text before the match (reversed), the match
  (reversed) and the captures.
\<close>

fun execFrom :: "RegExp \<Rightarrow> string \<Rightarrow> string \<Rightarrow> (string \<times> string \<times> string list) option" where
  "execFrom r pre [] =
     (case matchHere (multiline r) (prevOf pre) (source r) [] 0 [] [] of
        Some (acc, caps) \<Rightarrow> Some (pre, acc, caps)
      | None \<Rightarrow> None)"
| "execFrom r pre (c # cs) =
     (case matchHere (multiline r) (prevOf pre) (source r) [] 0 [] (c # cs) of
        Some (acc, caps) \<Rightarrow> Some (pre, acc, caps)
      | None \<Rightarrow> execFrom r (c # pre) cs)"

definition exec :: "RegExp \<Rightarrow> string \<Rightarrow> (string \<times> string \<times> string list) option" where
  "exec r s = execFrom r [] s"

definition test :: "RegExp \<Rightarrow> string \<Rightarrow> bool" where
  "test r s = (exec r s \<noteq> None)"


section \<open>String operations\<close>

fun startsWith :: "string \<Rightarrow> string \<Rightarrow> bool" where
  "startsWith s [] = True"
| "startsWith [] (p # ps) = False"
| "startsWith (c # cs) (p # ps) = (c = p \<and> startsWith cs ps)"

fun includesStr :: "string \<Rightarrow> string \<Rightarrow> bool" where
  "includesStr [] sub = startsWith [] sub"
| "includesStr (c # cs) sub = (startsWith (c # cs) sub \<or> includesStr cs sub)"

text \<open>\<^verbatim>\<open>indexOf\<close> gives -1 when the character does not occur.\<close>

fun indexOf :: "string \<Rightarrow> char \<Rightarrow> int" where
  "indexOf [] d = -1"
| "indexOf (c # cs) d =
     (if c = d then 0 else (let i = indexOf cs d in if i < 0 then -1 else i + 1))"

text \<open>\<^verbatim>\<open>slice\<close> with bounds that are not negative, the only use the script makes of it.\<close>

definition slice :: "string \<Rightarrow> int \<Rightarrow> int \<Rightarrow> string" where
  "slice s a b = drop (nat a) (take (nat b) s)"

definition sliceFrom :: "string \<Rightarrow> int \<Rightarrow> string" where
  "sliceFrom s a = drop (nat a) s"

section \<open>Replacement\<close>

text \<open>
  The second argument of \<^verbatim>\<open>String.prototype.replace\<close>: a template, in which
  \<^verbatim>\<open>$$ $& $` $' $n $nn\<close> are expanded, or a function of the match, the captures, the
  offset of the match and the whole text.
\<close>

datatype replacement =
    Template string
  | Replacer "string \<Rightarrow> string list \<Rightarrow> nat \<Rightarrow> string \<Rightarrow> string"

definition digitVal :: "char \<Rightarrow> nat" where
  "digitVal c = length (takeWhile (\<lambda>d. d \<noteq> c) ''0123456789'')"

text \<open>
  \<open>getSubstitution\<close> expands a template for one match: \<open>m\<close> is the matched text, \<open>b\<close>
  the text before it, \<open>a\<close> the text after it, \<open>caps\<close> the captures. A two-digit
  reference beyond the number of groups falls back to its first digit; a reference
  to a group that does not exist stays as it is written.
\<close>

fun getSubstitution :: "string \<Rightarrow> string \<Rightarrow> string \<Rightarrow> string list \<Rightarrow> string \<Rightarrow> string" where
  "getSubstitution m b a caps [] = []"
| "getSubstitution m b a caps [c] = [c]"
| "getSubstitution m b a caps (c # d # t) =
     (if c \<noteq> CHR ''$'' then c # getSubstitution m b a caps (d # t)
      else if d = CHR ''$'' then CHR ''$'' # getSubstitution m b a caps t
      else if d = CHR ''`'' then b @ getSubstitution m b a caps t
      else if d = CHR ''&'' then m @ getSubstitution m b a caps t
      else if d = CHR 0x27 then a @ getSubstitution m b a caps t
      else if isDigit d then
        (case t of
           e # t' \<Rightarrow>
             (if isDigit e \<and> 10 * digitVal d + digitVal e \<le> length caps
              then (if 1 \<le> 10 * digitVal d + digitVal e
                    then caps ! (10 * digitVal d + digitVal e - 1) @ getSubstitution m b a caps t'
                    else c # d # e # getSubstitution m b a caps t')
              else if 1 \<le> digitVal d \<and> digitVal d \<le> length caps
              then caps ! (digitVal d - 1) @ getSubstitution m b a caps t
              else c # d # getSubstitution m b a caps t)
         | [] \<Rightarrow>
             (if 1 \<le> digitVal d \<and> digitVal d \<le> length caps
              then caps ! (digitVal d - 1)
              else [c, d]))
      else c # getSubstitution m b a caps (d # t))"

text \<open>The text that replaces one match found after \<open>pre\<close> (reversed) with \<open>rest\<close> after it.\<close>

fun substitute :: "replacement \<Rightarrow> string \<Rightarrow> string \<Rightarrow> string list \<Rightarrow> string \<Rightarrow> string" where
  "substitute (Template t) pre acc caps rest = getSubstitution (rev acc) (rev pre) rest caps t"
| "substitute (Replacer f) pre acc caps rest =
     f (rev acc) caps (length pre) (rev pre @ rev acc @ rest)"

text \<open>
  \<^verbatim>\<open>String.prototype.replace\<close> with a regular expression: every match from left to
  right when the expression is global (after an empty match the search moves on by
  one character), the first match only when it is not.
\<close>

function replaceFrom :: "RegExp \<Rightarrow> replacement \<Rightarrow> string \<Rightarrow> string \<Rightarrow> string" where
  "replaceFrom r rp pre [] =
     (case matchHere (multiline r) (prevOf pre) (source r) [] 0 [] [] of
        None \<Rightarrow> []
      | Some (acc, caps) \<Rightarrow> substitute rp pre acc caps [])"
| "replaceFrom r rp pre (c # cs) =
     (case matchHere (multiline r) (prevOf pre) (source r) [] 0 [] (c # cs) of
        None \<Rightarrow> c # replaceFrom r rp (c # pre) cs
      | Some (acc, caps) \<Rightarrow>
          (if \<not> global r
           then substitute rp pre acc caps (drop (length acc) (c # cs)) @ drop (length acc) (c # cs)
           else if acc = []
           then substitute rp pre acc caps (c # cs) @ c # replaceFrom r rp (c # pre) cs
           else substitute rp pre acc caps (drop (length acc) (c # cs))
                  @ replaceFrom r rp (acc @ pre) (drop (length acc - 1) cs)))"
  by pat_completeness auto
termination
  by (relation "measure (\<lambda>(r, rp, pre, s). length s)") auto

definition replace :: "string \<Rightarrow> RegExp \<Rightarrow> replacement \<Rightarrow> string" where
  "replace s r rp = replaceFrom r rp [] s"

section \<open>applyPatch\<close>

text \<open>
  \<^verbatim>\<open>escapeRegex\<close> puts a backslash before each syntax character:
  \<^verbatim>\<open>str.replace(/[.*+?^${}()|[\]\\]/g, "\\$&")\<close>.
\<close>

definition escapeRegex :: "string \<Rightarrow> string" where
  "escapeRegex str =
     replace str (RegExp [One (OneOf (''.*+?^${}()|[]'' @ [CHR 0x5C]))] True False)
       (Template [CHR 0x5C, CHR ''$'', CHR ''&''])"

text \<open>
  \<^verbatim>\<open>new RegExp(src, "g")\<close> for a source in which every syntax character is escaped, as
  \<open>escapeRegex\<close> leaves it: a backslash makes the next character a literal, any other
  character is a literal.
\<close>

fun parseEscaped :: "string \<Rightarrow> node list" where
  "parseEscaped [] = []"
| "parseEscaped [c] = [One (Chr c)]"
| "parseEscaped (c # d # cs) =
     (if c = CHR 0x5C then One (Chr d) # parseEscaped cs
      else One (Chr c) # parseEscaped (d # cs))"

definition newGlobalRegExp :: "string \<Rightarrow> RegExp" where
  "newGlobalRegExp src = RegExp (parseEscaped src) True False"

datatype searchPattern = Pattern RegExp | Literal string

record PatchResult =
  name :: string
  success :: bool
  error :: "string option"

definition applyPatch ::
  "string \<Rightarrow> string \<Rightarrow> searchPattern \<Rightarrow> replacement \<Rightarrow> string \<times> PatchResult" where
  "applyPatch content nm searchPattern rp =
     (let pattern = (case searchPattern of
                       Literal str \<Rightarrow> newGlobalRegExp (escapeRegex str)
                     | Pattern r \<Rightarrow> r)
      in if \<not> test pattern content
         then (content, \<lparr>name = nm, success = False, error = Some ''Pattern not found''\<rparr>)
         else (let newContent = replace content pattern rp
               in if newContent = content
                  then (content,
                        \<lparr>name = nm, success = False, error = Some ''Replacement had no effect''\<rparr>)
                  else (newContent, \<lparr>name = nm, success = True, error = None\<rparr>)))"


section \<open>The patch script\<close>

definition PATCH_MARKER :: string where
  "PATCH_MARKER = ''// DRIZZLE-KIT-DENO-PATCHED-V10''"

definition SUPPORTED_VERSIONS :: "string list" where
  "SUPPORTED_VERSIONS = [''0.30.6'', ''0.31.8'']"

subsection \<open>findDrizzleKitBin\<close>

record walkEntry =
  path :: string
  isFile :: bool

text \<open>\<^verbatim>\<open>/drizzle-kit.*\/bin\.cjs$/\<close>, the \<^verbatim>\<open>match\<close> option of the walk.\<close>

definition binPattern :: RegExp where
  "binPattern = RegExp (lit ''drizzle-kit'' @ [Star Dot] @ lit ''/bin.cjs'' @ [Eol]) False False"

text \<open>\<^verbatim>\<open>/drizzle-kit@(\d+\.\d+\.\d+)/\<close>\<close>

definition versionPattern :: RegExp where
  "versionPattern =
     RegExp (lit ''drizzle-kit@'' @ [Open, Plus Digit] @ lit ''.'' @ [Plus Digit] @ lit ''.''
             @ [Plus Digit, Close]) False False"

text \<open>
  \<^verbatim>\<open>walk\<close> belongs to the standard library. Its argument here is the list of the entries
  under \<^verbatim>\<open>./node_modules\<close> down to depth 6, in the order of the traversal; it yields
  those whose path matches the \<^verbatim>\<open>match\<close> option.
\<close>

definition walk :: "walkEntry list \<Rightarrow> walkEntry list" where
  "walk entries = filter (\<lambda>e. test binPattern (path e)) entries"

text \<open>\<^verbatim>\<open>versionMatch?.[1] ?? "unknown"\<close>\<close>

definition extractVersion :: "string \<Rightarrow> string" where
  "extractVersion p =
     (case exec versionPattern p of
        Some (pre, acc, caps) \<Rightarrow> caps ! 0
      | None \<Rightarrow> ''unknown'')"

fun firstFile :: "walkEntry list \<Rightarrow> (string \<times> string) option" where
  "firstFile [] = None"
| "firstFile (e # es) =
     (if isFile e then Some (path e, extractVersion (path e)) else firstFile es)"

definition findDrizzleKitBin :: "walkEntry list \<Rightarrow> (string \<times> string) option" where
  "findDrizzleKitBin entries = firstFile (walk entries)"

subsection \<open>The rules\<close>

text \<open>
  The name, the pattern and the replacement of each call of \<^verbatim>\<open>applyPatch\<close>, in the
  order of the calls.
\<close>

text \<open>The arrow U+2192 in two of the names, as its three bytes in UTF-8.\<close>

definition arrow :: string where
  "arrow = [CHR 0xE2, CHR 0x86, CHR 0x92]"

definition configLoading_name :: string where
  "configLoading_name = ''config loading (require '' @ arrow @ '' import)''"

definition schemaLoading_name :: string where
  "schemaLoading_name = ''schema loading (require '' @ arrow @ '' import)''"
text \<open>\<^verbatim>\<open>/function walkForTsConfig\(directory[^)]*\)\s*\{/g\<close>\<close>

definition walkForTsConfig_pattern :: RegExp where
  "walkForTsConfig_pattern =
     RegExp (lit ''function walkForTsConfig(directory'' @ [Star (NotIn '')'')] @ lit '')'' @ [Star Space] @ lit ''{'') True False"

definition walkForTsConfig_replacement :: string where
  "walkForTsConfig_replacement =
     ''function walkForTsConfig(directory, readdirSync) {\<newline>  return void 0; // PATCHED: disabled for Deno''"

text \<open>\<^verbatim>\<open>/recusivelyResolveSync\(options\)\s*\{/g\<close>\<close>

definition recusivelyResolveSync_pattern :: RegExp where
  "recusivelyResolveSync_pattern =
     RegExp (lit ''recusivelyResolveSync(options)'' @ [Star Space] @ lit ''{'') True False"

definition recusivelyResolveSync_replacement :: string where
  "recusivelyResolveSync_replacement =
     ''recusivelyResolveSync(options) {\<newline>    return null; // PATCHED: disabled for Deno''"

text \<open>\<^verbatim>\<open>/function _supportsColor\(haveStream,\s*\{[^}]*\}\s*=\s*\{\}\)\s*\{/g\<close>\<close>

definition supportsColor_pattern :: RegExp where
  "supportsColor_pattern =
     RegExp (lit ''function _supportsColor(haveStream,'' @ [Star Space] @ lit ''{'' @ [Star (NotIn ''}'')] @ lit ''}''
       @ [Star Space] @ lit ''='' @ [Star Space] @ lit ''{})'' @ [Star Space] @ lit ''{'') True False"

definition supportsColor_replacement :: string where
  "supportsColor_replacement =
     ''function _supportsColor(haveStream, { streamIsTTY, sniffFlags = true } = {}) {\<newline>  // PATCHED: Return color level 3 (truecolor) without checking env vars for Deno\<newline>  return 3;\<newline>  // Original code below (unreachable):''"

text \<open>\<^verbatim>\<open>/function supportsColor2\(stream\)\s*\{/g\<close>\<close>

definition supportsColor2_pattern :: RegExp where
  "supportsColor2_pattern =
     RegExp (lit ''function supportsColor2(stream)'' @ [Star Space] @ lit ''{'') True False"

definition supportsColor2_replacement :: string where
  "supportsColor2_replacement =
     ''function supportsColor2(stream) {\<newline>      // PATCHED: Return color level 3 (truecolor) without checking env vars for Deno\<newline>      return 3;\<newline>      // Original code below (unreachable):''"

text \<open>\<^verbatim>\<open>/if \(!process\.env\.WS_NO_BUFFER_UTIL\) \{/g\<close>\<close>

definition bufferutil_pattern :: RegExp where
  "bufferutil_pattern =
     RegExp (lit ''if (!process.env.WS_NO_BUFFER_UTIL) {'') True False"

definition bufferutil_replacement :: string where
  "bufferutil_replacement =
     ''if (false /* PATCHED: skip bufferutil for Deno */ && !process.env.WS_NO_BUFFER_UTIL) {''"

text \<open>\<^verbatim>\<open>/"\.\.\/node_modules\/\.pnpm\/dotenv@[^"]+\/node_modules\/dotenv\/lib\/env-options\.js"\(exports2, module2\) \{\s*var options = \{\};/g\<close>\<close>

definition dotenvOptions_pattern :: RegExp where
  "dotenvOptions_pattern =
     RegExp (lit ([CHR 0x22] @ ''../node_modules/.pnpm/dotenv@'') @ [Plus (NotIn [CHR 0x22])]
       @ lit (''/node_modules/dotenv/lib/env-options.js'' @ [CHR 0x22] @ ''(exports2, module2) {'')
       @ [Star Space] @ lit ''var options = {};'') True False"

definition dotenvOptions_replacement :: string where
  "dotenvOptions_replacement =
     [CHR 0x22] @ ''../node_modules/.pnpm/dotenv@16.4.5/node_modules/dotenv/lib/env-options.js'' @ [CHR 0x22] @ ''(exports2, module2) {\<newline>    // PATCHED: Skip DOTENV_CONFIG_* env checks for Deno\<newline>    module2.exports = {};\<newline>    return;\<newline>    var options = {};''"

text \<open>\<^verbatim>\<open>/\/\/ \.\.\/node_modules\/\.pnpm\/dotenv@[^/]+\/node_modules\/dotenv\/config\.js\s*\(function\(\) \{\s*require_main\(\)\.config\(/g\<close>\<close>

definition dotenvConfig_pattern :: RegExp where
  "dotenvConfig_pattern =
     RegExp (lit ''// ../node_modules/.pnpm/dotenv@'' @ [Plus (NotIn ''/'')]
       @ lit ''/node_modules/dotenv/config.js'' @ [Star Space] @ lit ''(function() {''
       @ [Star Space] @ lit ''require_main().config('') True False"

definition dotenvConfig_replacement :: string where
  "dotenvConfig_replacement =
     ''// ../node_modules/.pnpm/dotenv@16.4.5/node_modules/dotenv/config.js\<newline>// PATCHED: Skip dotenv auto-config for Deno\<newline>(function() { return; require_main().config(''"

text \<open>\<^verbatim>\<open>/var homedir = import_node_os2\.default\.homedir\(\);/g\<close>\<close>

definition deferHomedir_pattern :: RegExp where
  "deferHomedir_pattern =
     RegExp (lit ''var homedir = import_node_os2.default.homedir();'') True False"

definition deferHomedir_replacement :: string where
  "deferHomedir_replacement =
     ''var homedir = '' @ [CHR 0x22] @ [CHR 0x22] @ ''; // PATCHED: deferred for Deno - will be set on first use\<newline>var _getHomedir = () => { if (!homedir) homedir = import_node_os2.default.homedir(); return homedir; };''"

text \<open>\<^verbatim>\<open>/var tmpdir = import_node_os2\.default\.tmpdir\(\);/g\<close>\<close>

definition deferTmpdir_pattern :: RegExp where
  "deferTmpdir_pattern =
     RegExp (lit ''var tmpdir = import_node_os2.default.tmpdir();'') True False"

definition deferTmpdir_replacement :: string where
  "deferTmpdir_replacement =
     ''var tmpdir = '' @ [CHR 0x22] @ [CHR 0x22] @ ''; // PATCHED: deferred for Deno - will be set on first use\<newline>var _getTmpdir = () => { if (!tmpdir) tmpdir = import_node_os2.default.tmpdir(); return tmpdir; };''"

text \<open>\<^verbatim>\<open>/import_node_path\.default\.join\(homedir,/g\<close>\<close>

definition lazyHomedir_pattern :: RegExp where
  "lazyHomedir_pattern =
     RegExp (lit ''import_node_path.default.join(homedir,'') True False"

definition lazyHomedir_replacement :: string where
  "lazyHomedir_replacement =
     ''import_node_path.default.join(_getHomedir(),''"

text \<open>\<^verbatim>\<open>/import_node_path\.default\.join\(tmpdir,/g\<close>\<close>

definition lazyTmpdir_pattern :: RegExp where
  "lazyTmpdir_pattern =
     RegExp (lit ''import_node_path.default.join(tmpdir,'') True False"

definition lazyTmpdir_replacement :: string where
  "lazyTmpdir_replacement =
     ''import_node_path.default.join(_getTmpdir(),''"

text \<open>\<^verbatim>\<open>/safeRegister\s*=\s*async\s*\(\)\s*=>\s*\{/g\<close>\<close>

definition safeRegister_pattern :: RegExp where
  "safeRegister_pattern =
     RegExp (lit ''safeRegister'' @ [Star Space] @ lit ''='' @ [Star Space] @ lit ''async'' @ [Star Space]
       @ lit ''()'' @ [Star Space] @ lit ''=>'' @ [Star Space] @ lit ''{'') True False"

definition safeRegister_replacement :: string where
  "safeRegister_replacement =
     ''safeRegister = async () => {\<newline>    return { unregister: () => {} }; // PATCHED: esbuild disabled for Deno''"

text \<open>\<^verbatim>\<open>/const required = require\(`\$\{(\w+)\}`\);/g\<close>\<close>

definition configLoading_pattern :: RegExp where
  "configLoading_pattern =
     RegExp (lit ''const required = require(`${'' @ [Open, Plus Word, Close] @ lit ''}`);'') True False"

definition configLoading_replacement :: string where
  "configLoading_replacement =
     ''const required = await import($1); // PATCHED: import for Deno TS support''"

text \<open>\<^verbatim>\<open>/const i0 = require\(`\$\{(\w+)\}`\);/g\<close>\<close>

definition schemaLoading_pattern :: RegExp where
  "schemaLoading_pattern =
     RegExp (lit ''const i0 = require(`${'' @ [Open, Plus Word, Close] @ lit ''}`);'') True False"

definition schemaLoading_replacement :: string where
  "schemaLoading_replacement =
     ''const i0 = await import($1); // PATCHED: import for Deno TS support''"

text \<open>\<^verbatim>\<open>/^(run\(\[generate, migrate, pull, push, studio.*\], \{[\s\S]*?\}\));?\s*$/m\<close>\<close>

definition cliExit_pattern :: RegExp where
  "cliExit_pattern =
     RegExp ([Bol, Open] @ lit ''run([generate, migrate, pull, push, studio'' @ [Star Dot] @ lit ''], {''
       @ [LazyStar AnyCh] @ lit ''})'' @ [Close, Opt (Chr CHR '';''), Star Space, Eol]) False True"

definition cliExit_replacement :: string where
  "cliExit_replacement =
     ''$1.then(() => { setTimeout(() => process.exit(0), 50); }); // PATCHED: force exit for Deno''"

definition rules :: "(string \<times> searchPattern \<times> replacement) list" where
  "rules =
     [(''walkForTsConfig'', Pattern walkForTsConfig_pattern, Template walkForTsConfig_replacement),
      (''recusivelyResolveSync'', Pattern recusivelyResolveSync_pattern, Template recusivelyResolveSync_replacement),
      (''stub _supportsColor (chalk)'', Pattern supportsColor_pattern, Template supportsColor_replacement),
      (''stub supportsColor2 (colors)'', Pattern supportsColor2_pattern, Template supportsColor2_replacement),
      (''skip bufferutil (ws)'', Pattern bufferutil_pattern, Template bufferutil_replacement),
      (''stub dotenv env-options'', Pattern dotenvOptions_pattern, Template dotenvOptions_replacement),
      (''stub dotenv config auto-call'', Pattern dotenvConfig_pattern, Template dotenvConfig_replacement),
      (''defer homedir (env-paths)'', Pattern deferHomedir_pattern, Template deferHomedir_replacement),
      (''defer tmpdir (env-paths)'', Pattern deferTmpdir_pattern, Template deferTmpdir_replacement),
      (''lazy homedir usage'', Pattern lazyHomedir_pattern, Template lazyHomedir_replacement),
      (''lazy tmpdir usage'', Pattern lazyTmpdir_pattern, Template lazyTmpdir_replacement),
      (''safeRegister (disable esbuild)'', Pattern safeRegister_pattern, Template safeRegister_replacement),
      (configLoading_name, Pattern configLoading_pattern, Template configLoading_replacement),
      (schemaLoading_name, Pattern schemaLoading_pattern, Template schemaLoading_replacement),
      (''CLI exit handler'', Pattern cliExit_pattern, Template cliExit_replacement)]"


subsection \<open>patchDrizzleKit\<close>

text \<open>What the script prints, one constructor for each message.\<close>

datatype message =
    CouldNotFind                \<comment> \<open>Could not find drizzle-kit bin.cjs\<close>
  | RunInstallFirst             \<comment> \<open>Make sure you've run `deno install` first\<close>
  | Found string string         \<comment> \<open>Found drizzle-kit@version at: path\<close>
  | MayNotBeCompatible string   \<comment> \<open>drizzle-kit@version may not be compatible (tested: ...)\<close>
  | AttemptingAnyway            \<comment> \<open>Attempting to patch anyway...\<close>
  | AlreadyPatched              \<comment> \<open>drizzle-kit already patched (v10)\<close>
  | FoundOlderPatch string      \<comment> \<open>Found older patch (vN), will re-patch to v10\<close>
  | PatchResults                \<comment> \<open>Patch results:\<close>
  | Applied string              \<comment> \<open>a tick and the name\<close>
  | NotApplied string string    \<comment> \<open>a cross, the name and the error\<close>
  | CriticalFailed              \<comment> \<open>Critical patches failed - drizzle-kit may not work correctly\<close>
  | NonCriticalFailed           \<comment> \<open>Some non-critical patches failed, but drizzle-kit should work\<close>
  | PatchedSuccessfully         \<comment> \<open>Patched drizzle-kit successfully\<close>

datatype stream = Log | Warn | Error

text \<open>
  How a run ends: the function returns (the process then ends with status 0),
  \<^verbatim>\<open>Deno.exit\<close> ends the process with a status, or reading the file throws.
\<close>

datatype outcome = Returned | Exit nat | Threw

record run =
  outcome :: outcome
  console :: "(stream \<times> message) list"
  results :: "PatchResult list"
  writes :: "(string \<times> string) list"   \<comment> \<open>the calls of \<^verbatim>\<open>Deno.writeTextFile\<close>, in order\<close>

text \<open>The files after a run: each write replaces the whole content at its path.\<close>

fun writeAll :: "(string \<times> string) list \<Rightarrow> (string \<rightharpoonup> string) \<Rightarrow> (string \<rightharpoonup> string)" where
  "writeAll [] fs = fs"
| "writeAll ((p, c) # ws) fs = writeAll ws (fs(p \<mapsto> c))"

text \<open>\<^verbatim>\<open>/\/\/ DRIZZLE-KIT-DENO-PATCHED-V(\d+)/\<close>\<close>

definition oldPatchPattern :: RegExp where
  "oldPatchPattern =
     RegExp (lit ''// DRIZZLE-KIT-DENO-PATCHED-V'' @ [Open, Plus Digit, Close]) False False"

text \<open>The marker goes after the shebang line, or at the start.\<close>

definition insertMarker :: "string \<Rightarrow> string" where
  "insertMarker content =
     (if startsWith content ''#!''
      then (let firstNewline = indexOf content CHR ''\<newline>''
            in slice content 0 (firstNewline + 1) @ PATCH_MARKER @ ''\<newline>''
                 @ sliceFrom content (firstNewline + 1))
      else PATCH_MARKER @ ''\<newline>'' @ content)"

text \<open>The fifteen blocks of the script: each rule works on the text the one before left.\<close>

fun applyRules ::
  "(string \<times> searchPattern \<times> replacement) list \<Rightarrow> string \<Rightarrow> PatchResult list
     \<Rightarrow> string \<times> PatchResult list" where
  "applyRules [] content rs = (content, rs)"
| "applyRules ((nm, pat, rp) # rest) content rs =
     (case applyPatch content nm pat rp of
        (newContent, result) \<Rightarrow> applyRules rest newContent (rs @ [result]))"

text \<open>
  The text that the rule at position \<open>i\<close> receives, as the specification words it: the
  first rule receives the text with the marker, and each later rule receives what the
  rule before it gave, which is the replaced text when that rule was applied and its
  own input when it was not. This is what the results are compared with.
\<close>

definition regExpOf :: "searchPattern \<Rightarrow> RegExp" where
  "regExpOf sp = (case sp of Literal str \<Rightarrow> newGlobalRegExp (escapeRegex str) | Pattern r \<Rightarrow> r)"

fun ruleInput :: "nat \<Rightarrow> string \<Rightarrow> string" where
  "ruleInput 0 start = start"
| "ruleInput (Suc i) start =
     (case rules ! i of
        (nm, sp, rp) \<Rightarrow>
          (if test (regExpOf sp) (ruleInput i start)
              \<and> replace (ruleInput i start) (regExpOf sp) rp \<noteq> ruleInput i start
           then replace (ruleInput i start) (regExpOf sp) rp
           else ruleInput i start))"

definition printResult :: "PatchResult \<Rightarrow> stream \<times> message" where
  "printResult r =
     (if success r then (Log, Applied (name r))
      else (Log, NotApplied (name r) (case error r of Some e \<Rightarrow> e | None \<Rightarrow> ''undefined'')))"

definition criticalPatches :: "string list" where
  "criticalPatches = [''safeRegister (disable esbuild)'', configLoading_name, schemaLoading_name]"

text \<open>
  \<open>patchFile\<close> is the body of \<^verbatim>\<open>patchDrizzleKit\<close> from the point where the file has been
  found, at \<open>binPath\<close> with the version \<open>version\<close>.
\<close>

definition patchFile :: "string \<Rightarrow> string \<Rightarrow> (string \<rightharpoonup> string) \<Rightarrow> run" where
  "patchFile binPath version fs =
     (let out1 = [(Log, Found version binPath)]
            @ (if version \<notin> set SUPPORTED_VERSIONS \<and> version \<noteq> ''unknown''
               then [(Warn, MayNotBeCompatible version), (Warn, AttemptingAnyway)]
               else [])
      in case fs binPath of
           None \<Rightarrow> \<lparr>outcome = Threw, console = out1, results = [], writes = []\<rparr>
         | Some content \<Rightarrow>
             (if includesStr content PATCH_MARKER
              then \<lparr>outcome = Returned, console = out1 @ [(Log, AlreadyPatched)],
                    results = [], writes = []\<rparr>
              else
                (let out2 = out1
                       @ (case exec oldPatchPattern content of
                            Some (pre, acc, caps) \<Rightarrow> [(Log, FoundOlderPatch (caps ! 0))]
                          | None \<Rightarrow> []);
                     (patched, rs) = applyRules rules (insertMarker content) [];
                     out3 = out2 @ [(Log, PatchResults)] @ map printResult rs;
                     hasFailure = list_ex (\<lambda>r. \<not> success r) rs;
                     criticalFailures =
                       filter (\<lambda>r. \<not> success r \<and> name r \<in> set criticalPatches) rs
                 in if length criticalFailures > 0
                    then \<lparr>outcome = Exit 1, console = out3 @ [(Error, CriticalFailed)],
                          results = rs, writes = []\<rparr>
                    else \<lparr>outcome = Returned,
                          console = out3 @ [(Log, if hasFailure then NonCriticalFailed
                                                  else PatchedSuccessfully)],
                          results = rs, writes = [(binPath, patched)]\<rparr>)))"

definition patchDrizzleKit :: "walkEntry list \<Rightarrow> (string \<rightharpoonup> string) \<Rightarrow> run" where
  "patchDrizzleKit entries fs =
     (case findDrizzleKitBin entries of
        None \<Rightarrow>
          \<lparr>outcome = Exit 1, console = [(Error, CouldNotFind), (Error, RunInstallFirst)],
           results = [], writes = []\<rparr>
      | Some (binPath, version) \<Rightarrow> patchFile binPath version fs)"


subsection \<open>Fixtures\<close>

text \<open>A file system with one bundle at the path a Deno install gives it.\<close>

definition exPath :: string where
  "exPath = ''node_modules/.deno/drizzle-kit@0.31.8/node_modules/drizzle-kit/bin.cjs''"

definition exEntries :: "walkEntry list" where
  "exEntries =
     [\<lparr>path = ''node_modules/.deno/drizzle-kit@0.31.8'', isFile = False\<rparr>,
      \<lparr>path = exPath, isFile = True\<rparr>]"

text \<open>A bundle in which the three critical patterns occur and no other.\<close>

definition exBundle :: string where
  "exBundle =
     ''#!/usr/bin/env node\<newline>safeRegister = async () => {\<newline>const required = require(`${path}`);\<newline>const i0 = require(`${it}`);\<newline>''"

text \<open>A bundle in which only the first critical pattern occurs.\<close>

definition exBroken :: string where
  "exBroken = ''#!/usr/bin/env node\<newline>safeRegister = async () => {\<newline>''"


text \<open>What the run writes for \<open>exBundle\<close>.\<close>

definition exPatched :: string where
  "exPatched =
     ''#!/usr/bin/env node\<newline>// DRIZZLE-KIT-DENO-PATCHED-V10\<newline>safeRegister = async () => {\<newline>    return { unregister: () => {} }; // PATCHED: esbuild disabled for Deno\<newline>const required = await import(path); // PATCHED: import for Deno TS support\<newline>const i0 = await import(it); // PATCHED: import for Deno TS support\<newline>''"

text \<open>
  A bundle in which the match of the first rule holds the text that the fifth rule
  looks for, and what the run writes for it.
\<close>

definition exConsumed :: string where
  "exConsumed =
     ''#!/usr/bin/env node\<newline>function walkForTsConfig(directory, if (!process.env.WS_NO_BUFFER_UTIL) {\<newline>safeRegister = async () => {\<newline>const required = require(`${path}`);\<newline>const i0 = require(`${it}`);\<newline>''"

definition exConsumedAfterFirst :: string where
  "exConsumedAfterFirst =
     ''#!/usr/bin/env node\<newline>// DRIZZLE-KIT-DENO-PATCHED-V10\<newline>function walkForTsConfig(directory, readdirSync) {\<newline>  return void 0; // PATCHED: disabled for Deno\<newline>safeRegister = async () => {\<newline>const required = require(`${path}`);\<newline>const i0 = require(`${it}`);\<newline>''"

definition exConsumedPatched :: string where
  "exConsumedPatched =
     ''#!/usr/bin/env node\<newline>// DRIZZLE-KIT-DENO-PATCHED-V10\<newline>function walkForTsConfig(directory, readdirSync) {\<newline>  return void 0; // PATCHED: disabled for Deno\<newline>safeRegister = async () => {\<newline>    return { unregister: () => {} }; // PATCHED: esbuild disabled for Deno\<newline>const required = await import(path); // PATCHED: import for Deno TS support\<newline>const i0 = await import(it); // PATCHED: import for Deno TS support\<newline>''"

text \<open>
  A path with a segment \<^verbatim>\<open>@X.Y.Z\<close>: an \<^verbatim>\<open>@\<close> followed by three runs of digits with
  dots between them.
\<close>

definition hasAtVersion :: "string \<Rightarrow> bool" where
  "hasAtVersion p \<longleftrightarrow>
     (\<exists>u x y z v. p = u @ ''@'' @ x @ ''.'' @ y @ ''.'' @ z @ v
        \<and> x \<noteq> [] \<and> y \<noteq> [] \<and> z \<noteq> [] \<and> (\<forall>c \<in> set (x @ y @ z). isDigit c))"

text \<open>Entries in which the path of the bundle carries no version.\<close>

definition exPlainPath :: string where
  "exPlainPath = ''node_modules/drizzle-kit/bin.cjs''"

definition exPlainEntries :: "walkEntry list" where
  "exPlainEntries = [\<lparr>path = exPlainPath, isFile = True\<rparr>]"

text \<open>A path with two versions of the package in it.\<close>

definition exNestedPath :: string where
  "exNestedPath =
     ''node_modules/.deno/drizzle-kit@0.30.6/node_modules/drizzle-kit@0.31.8/bin.cjs''"

definition exNestedEntries :: "walkEntry list" where
  "exNestedEntries = [\<lparr>path = exNestedPath, isFile = True\<rparr>]"

text \<open>The expression that matches a string literally, every occurrence of it.\<close>

definition literalRegExp :: "string \<Rightarrow> RegExp" where
  "literalRegExp str = RegExp (lit str) True False"

text \<open>The set of \<open>escapeRegex\<close>, and what \<open>escapeRegex\<close> makes of one character.\<close>

definition specials :: string where
  "specials = ''.*+?^${}()|[]'' @ [CHR 0x5C]"

definition escapeChar :: "char \<Rightarrow> string" where
  "escapeChar c = (if c \<in> set specials then [CHR 0x5C, c] else [c])"

text \<open>A text in which the pattern of the last rule matches twice.\<close>

definition exTwoRuns :: string where
  "exTwoRuns =
     ''run([generate, migrate, pull, push, studio], {})\<newline>run([generate, migrate, pull, push, studio], {})''"

text \<open>The same pattern with the flag \<^verbatim>\<open>g\<close> added.\<close>

definition cliExit_global :: RegExp where
  "cliExit_global = RegExp (source cliExit_pattern) True (multiline cliExit_pattern)"

text \<open>Entries in which the bundle has a version that is not in \<open>SUPPORTED_VERSIONS\<close>.\<close>

definition exFuturePath :: string where
  "exFuturePath = ''node_modules/.deno/drizzle-kit@9.9.9/node_modules/drizzle-kit/bin.cjs''"

definition exFutureEntries :: "walkEntry list" where
  "exFutureEntries = [\<lparr>path = exFuturePath, isFile = True\<rparr>]"

subsection \<open>Notions used in the statements and proofs\<close>

text \<open>The number of places of \<open>s\<close> at which \<open>sub\<close> occurs.\<close>

fun occurrences :: "string \<Rightarrow> string \<Rightarrow> nat" where
  "occurrences [] sub = (if startsWith [] sub then 1 else 0)"
| "occurrences (c # cs) sub = (if startsWith (c # cs) sub then 1 else 0) + occurrences cs sub"

text \<open>
  No match of \<open>r\<close> starts at a place inside \<open>p\<close>, when \<open>p\<close> stands after \<open>pre\<close>
  (reversed) and before \<open>x\<close>.
\<close>

fun noMatchIn :: "RegExp \<Rightarrow> string \<Rightarrow> string \<Rightarrow> string \<Rightarrow> bool" where
  "noMatchIn r pre [] x = True"
| "noMatchIn r pre (c # p) x =
     (matchHere (multiline r) (prevOf pre) (source r) [] 0 [] (c # p @ x) = None
      \<and> noMatchIn r (c # pre) p x)"

text \<open>The first line of a text, without its newline.\<close>

definition firstLine :: "string \<Rightarrow> string" where
  "firstLine s = takeWhile (\<lambda>c. c \<noteq> CHR ''\<newline>'') s"

text \<open>
  The artifacts for which the marker is shown to survive the rules: those whose first
  line, when it is a shebang line ended by a newline, holds neither \<^verbatim>\<open>(\<close> nor \<^verbatim>\<open>@\<close>.
\<close>

definition plainShebang :: "string \<Rightarrow> bool" where
  "plainShebang content \<longleftrightarrow>
     (startsWith content ''#!'' \<and> CHR ''\<newline>'' \<in> set content \<longrightarrow>
        CHR ''('' \<notin> set (firstLine content) \<and> CHR ''@'' \<notin> set (firstLine content))"

text \<open>What the marker and its newline look like in the buffer, after a line.\<close>

definition markerLine :: string where
  "markerLine = PATCH_MARKER @ ''\<newline>''"

text \<open>A node that can consume the character \<open>c\<close>.\<close>

fun nodeAccepts :: "node \<Rightarrow> char \<Rightarrow> bool" where
  "nodeAccepts (One a) c = accepts a c"
| "nodeAccepts (Star a) c = accepts a c"
| "nodeAccepts (Plus a) c = accepts a c"
| "nodeAccepts (Opt a) c = accepts a c"
| "nodeAccepts (LazyStar a) c = accepts a c"
| "nodeAccepts Bol c = False"
| "nodeAccepts Eol c = False"
| "nodeAccepts Open c = False"
| "nodeAccepts Close c = False"

text \<open>The marker line with the newline that ends the line before it.\<close>

definition afterLine :: string where
  "afterLine = CHR ''\<newline>'' # markerLine"

text \<open>The literal characters with which every match of the nodes must begin.\<close>

fun literalPrefix :: "node list \<Rightarrow> string" where
  "literalPrefix (One (Chr c) # ns) = c # literalPrefix ns"
| "literalPrefix (Bol # ns) = literalPrefix ns"
| "literalPrefix (Open # ns) = literalPrefix ns"
| "literalPrefix ns = []"

text \<open>The lines of the buffer up to the marker line, as \<open>insertMarker\<close> leaves them.\<close>

definition markedPrefix :: "string \<Rightarrow> string" where
  "markedPrefix content =
     (if startsWith content ''#!'' \<and> CHR ''\<newline>'' \<in> set content
      then firstLine content @ afterLine
      else markerLine)"

text \<open>
  A bundle whose first line holds the start of the first pattern, so that the match
  runs over the place where the marker goes, and what the run writes for it.
\<close>

definition exSpanning :: string where
  "exSpanning =
     ''#!function walkForTsConfig(directory\<newline>) {safeRegister=async()=>{const required = require(`${a}`);const i0 = require(`${a}`);''"

definition exSpanningPatched :: string where
  "exSpanningPatched =
     ''#!function walkForTsConfig(directory, readdirSync) {\<newline>  return void 0; // PATCHED: disabled for DenosafeRegister = async () => {\<newline>    return { unregister: () => {} }; // PATCHED: esbuild disabled for Denoconst required = await import(a); // PATCHED: import for Deno TS supportconst i0 = await import(a); // PATCHED: import for Deno TS support''"







section \<open>Facts about strings and the matcher\<close>


lemma startsWith_iff: "startsWith s l \<longleftrightarrow> (\<exists>t. s = l @ t)"
proof (induction s l rule: startsWith.induct)
  case (1 s)
  then show ?case by simp
next
  case (2 p ps)
  then show ?case by simp
next
  case (3 c cs p ps)
  then show ?case by auto
qed

lemma startsWith_append [simp]: "startsWith (l @ t) l"
  by (simp add: startsWith_iff)

lemma includesStr_iff: "includesStr s sub \<longleftrightarrow> (\<exists>u v. s = u @ sub @ v)"
proof (induction s)
  case Nil
  then show ?case by (auto simp: startsWith_iff)
next
  case (Cons c cs)
  show ?case
  proof
    assume "includesStr (c # cs) sub"
    then consider "startsWith (c # cs) sub" | "includesStr cs sub" by auto
    then show "\<exists>u v. c # cs = u @ sub @ v"
    proof cases
      case 1
      then obtain t where "c # cs = sub @ t" by (auto simp: startsWith_iff)
      then have "c # cs = [] @ sub @ t" by simp
      then show ?thesis by blast
    next
      case 2
      then obtain u v where "cs = u @ sub @ v" using Cons.IH by blast
      then have "c # cs = (c # u) @ sub @ v" by simp
      then show ?thesis by blast
    qed
  next
    assume "\<exists>u v. c # cs = u @ sub @ v"
    then obtain u v where uv: "c # cs = u @ sub @ v" by blast
    show "includesStr (c # cs) sub"
    proof (cases u)
      case Nil
      then have "startsWith (c # cs) sub" using uv by (auto simp: startsWith_iff)
      then show ?thesis by simp
    next
      case (Cons d u')
      then have "cs = u' @ sub @ v" using uv by simp
      then have "includesStr cs sub" using Cons.IH by blast
      then show ?thesis by simp
    qed
  qed
qed

lemma matchHere_lit:
  "matchHere ml prev (lit l @ ns) acc g caps s =
     (if startsWith s l then matchHere ml prev ns (rev l @ acc) g caps (drop (length l) s)
      else None)"
proof (induction l arbitrary: acc s)
  case Nil
  then show ?case by (simp add: lit_def)
next
  case (Cons c l)
  have IH: "\<And>acc s. matchHere ml prev (map (\<lambda>c. One (Chr c)) l @ ns) acc g caps s =
     (if startsWith s l then matchHere ml prev ns (rev l @ acc) g caps (drop (length l) s)
      else None)"
    using Cons.IH by (simp add: lit_def)
  show ?case
  proof (cases s)
    case Nil
    then show ?thesis by (simp add: lit_def)
  next
    case (Cons d ds)
    then show ?thesis by (simp add: lit_def IH)
  qed
qed

lemma star_sound:
  "matchHere ml prev (Star a # ns) acc g caps s = Some r \<Longrightarrow>
     \<exists>xs t. s = xs @ t \<and> (\<forall>c \<in> set xs. accepts a c)
           \<and> matchHere ml prev ns (rev xs @ acc) g caps t = Some r"
proof (induction s arbitrary: acc)
  case Nil
  then have "matchHere ml prev ns acc g caps [] = Some r" by simp
  then show ?case by - (rule exI[of _ "[]"], simp)
next
  case (Cons c cs)
  have stop: "matchHere ml prev ns acc g caps (c # cs) = Some r \<Longrightarrow> ?case"
    by (rule exI[of _ "[]"], rule exI[of _ "c # cs"]) simp
  show ?case
  proof (cases "accepts a c")
    case False
    then have "matchHere ml prev ns acc g caps (c # cs) = Some r" using Cons.prems by simp
    then show ?thesis by (rule stop)
  next
    case True
    show ?thesis
    proof (cases "matchHere ml prev (Star a # ns) (c # acc) g caps cs")
      case None
      then have "matchHere ml prev ns acc g caps (c # cs) = Some r"
        using Cons.prems True by simp
      then show ?thesis by (rule stop)
    next
      case (Some r')
      then have "matchHere ml prev (Star a # ns) (c # acc) g caps cs = Some r"
        using Cons.prems True by simp
      from Cons.IH[OF this] obtain xs t where
        *: "cs = xs @ t" "\<forall>c \<in> set xs. accepts a c"
        "matchHere ml prev ns (rev xs @ c # acc) g caps t = Some r" by blast
      show ?thesis
        by (rule exI[of _ "c # xs"], rule exI[of _ t]) (simp add: * True)
    qed
  qed
qed

lemma plus_sound:
  assumes "matchHere ml prev (Plus a # ns) acc g caps s = Some r"
  shows "\<exists>xs t. s = xs @ t \<and> xs \<noteq> [] \<and> (\<forall>c \<in> set xs. accepts a c)
           \<and> matchHere ml prev ns (rev xs @ acc) g caps t = Some r"
proof (cases s)
  case Nil
  then show ?thesis using assms by simp
next
  case (Cons c cs)
  have ac: "accepts a c" using assms Cons by (cases "accepts a c") simp_all
  have "matchHere ml prev (Star a # ns) (c # acc) g caps cs = Some r"
    using assms Cons ac by simp
  from star_sound[OF this] obtain xs t where
    *: "cs = xs @ t" "\<forall>c \<in> set xs. accepts a c"
    "matchHere ml prev ns (rev xs @ c # acc) g caps t = Some r" by blast
  show ?thesis
    by (rule exI[of _ "c # xs"], rule exI[of _ t]) (simp add: * ac Cons)
qed

lemma execFrom_sound:
  "execFrom r pre s = Some (pre', acc, caps) \<Longrightarrow>
     \<exists>u v. s = u @ v \<and> pre' = rev u @ pre
          \<and> matchHere (multiline r) (prevOf pre') (source r) [] 0 [] v = Some (acc, caps)"
proof (induction s arbitrary: pre)
  case Nil
  then have "pre' = pre \<and> matchHere (multiline r) (prevOf pre) (source r) [] 0 [] [] = Some (acc, caps)"
    by (cases "matchHere (multiline r) (prevOf pre) (source r) [] 0 [] []") auto
  then show ?case by - (rule exI[of _ "[]"], simp)
next
  case (Cons c cs)
  show ?case
  proof (cases "matchHere (multiline r) (prevOf pre) (source r) [] 0 [] (c # cs)")
    case None
    then have "execFrom r (c # pre) cs = Some (pre', acc, caps)" using Cons.prems by simp
    from Cons.IH[OF this] obtain u v where
      *: "cs = u @ v" "pre' = rev u @ c # pre"
      "matchHere (multiline r) (prevOf pre') (source r) [] 0 [] v = Some (acc, caps)" by blast
    show ?thesis
      using * by - (rule exI[of _ "c # u"], rule exI[of _ v], simp)
  next
    case (Some m)
    then have "pre' = pre
       \<and> matchHere (multiline r) (prevOf pre) (source r) [] 0 [] (c # cs) = Some (acc, caps)"
      using Cons.prems by (cases m) simp
    then show ?thesis
      by - (rule exI[of _ "[]"], rule exI[of _ "c # cs"], simp)
  qed
qed

lemma execFrom_skip:
  assumes "\<And>u v. p = u @ v \<Longrightarrow> v \<noteq> [] \<Longrightarrow>
             matchHere (multiline r) (prevOf (rev u @ pre)) (source r) [] 0 [] (v @ w) = None"
  shows "execFrom r pre (p @ w) = execFrom r (rev p @ pre) w"
  using assms
proof (induction p arbitrary: pre)
  case Nil
  then show ?case by simp
next
  case (Cons c p)
  have "matchHere (multiline r) (prevOf (rev [] @ pre)) (source r) [] 0 [] ((c # p) @ w) = None"
    by (rule Cons.prems) simp_all
  then have here: "matchHere (multiline r) (prevOf pre) (source r) [] 0 [] (c # p @ w) = None"
    by simp
  have "execFrom r (c # pre) (p @ w) = execFrom r (rev p @ c # pre) w"
  proof (rule Cons.IH)
    fix u v assume "p = u @ v" "v \<noteq> []"
    then have "c # p = (c # u) @ v" by simp
    from Cons.prems[OF this \<open>v \<noteq> []\<close>]
    show "matchHere (multiline r) (prevOf (rev u @ c # pre)) (source r) [] 0 [] (v @ w) = None"
      by simp
  qed
  then show ?case using here by simp
qed



lemma noMatchIn_append:
  "noMatchIn r pre (p @ q) x \<longleftrightarrow> noMatchIn r pre p (q @ x) \<and> noMatchIn r (rev p @ pre) q x"
  by (induction p arbitrary: pre) auto

lemma replaceFrom_skip:
  "noMatchIn r pre p x \<Longrightarrow> replaceFrom r rp pre (p @ x) = p @ replaceFrom r rp (rev p @ pre) x"
  by (induction p arbitrary: pre) auto

text \<open>What a match has consumed is a prefix of the text.\<close>

lemma matchHere_consumed:
  "matchHere ml prev ns acc g caps s = Some (acc', caps') \<Longrightarrow> \<exists>t. rev acc' @ t = rev acc @ s"
proof (induction ml prev ns acc g caps s rule: matchHere.induct)
  case (1 ml prev acc g caps s)
  then show ?case by simp
next
  case (2 ml prev a ns acc g caps)
  then show ?case by simp
next
  case (3 ml prev a ns acc g caps c cs)
  then show ?case by (cases "accepts a c") simp_all
next
  case (4 ml prev a ns acc g caps)
  then show ?case by simp
next
  case (5 ml prev a ns acc g caps c cs)
  show ?case
  proof (cases "accepts a c")
    case False
    then show ?thesis using 5 by simp
  next
    case True
    show ?thesis
    proof (cases "matchHere ml prev (Star a # ns) (c # acc) g caps cs")
      case None
      then show ?thesis using 5 True by simp
    next
      case (Some r)
      then show ?thesis using 5 True by simp
    qed
  qed
next
  case (6 ml prev a ns acc g caps)
  then show ?case by simp
next
  case (7 ml prev a ns acc g caps c cs)
  then show ?case by (cases "accepts a c") simp_all
next
  case (8 ml prev a ns acc g caps)
  then show ?case by simp
next
  case (9 ml prev a ns acc g caps c cs)
  show ?case
  proof (cases "accepts a c")
    case False
    then show ?thesis using 9 by simp
  next
    case True
    show ?thesis
    proof (cases "matchHere ml prev ns (c # acc) g caps cs")
      case None
      then show ?thesis using 9 True by simp
    next
      case (Some r)
      then show ?thesis using 9 True by simp
    qed
  qed
next
  case (10 ml prev a ns acc g caps)
  then show ?case by simp
next
  case (11 ml prev a ns acc g caps c cs)
  show ?case
  proof (cases "matchHere ml prev ns acc g caps (c # cs)")
    case (Some r)
    then show ?thesis using 11 by simp
  next
    case None
    then show ?thesis using 11 by (cases "accepts a c") simp_all
  qed
next
  case (12 ml prev ns acc g caps s)
  then show ?case by (cases "atLineStart ml prev acc") simp_all
next
  case (13 ml prev ns acc g caps s)
  then show ?case by (cases "atLineEnd ml s") simp_all
next
  case (14 ml prev ns acc g caps s)
  then show ?case by simp
next
  case (15 ml prev ns acc g caps s)
  then show ?case by simp
qed



lemma matchHere_must:
  "matchHere ml prev ns acc g caps s = Some (acc', caps') \<Longrightarrow>
     z \<in> set acc \<or> One (Chr z) \<in> set ns \<Longrightarrow> z \<in> set acc'"

proof (induction ml prev ns acc g caps s rule: matchHere.induct)
  case (1 ml prev acc g caps s)
  then show ?case by simp
next
  case (2 ml prev a ns acc g caps)
  then show ?case by simp
next
  case (3 ml prev a ns acc g caps c cs)
  then show ?case by (cases "accepts a c") auto
next
  case (4 ml prev a ns acc g caps)
  then show ?case by simp
next
  case (5 ml prev a ns acc g caps c cs)
  show ?case
  proof (cases "accepts a c")
    case False
    then show ?thesis using 5 by simp
  next
    case True
    show ?thesis
    proof (cases "matchHere ml prev (Star a # ns) (c # acc) g caps cs")
      case None
      then show ?thesis using 5 True by simp
    next
      case (Some r)
      then show ?thesis using 5 True by auto
    qed
  qed
next
  case (6 ml prev a ns acc g caps)
  then show ?case by simp
next
  case (7 ml prev a ns acc g caps c cs)
  then show ?case by (cases "accepts a c") auto
next
  case (8 ml prev a ns acc g caps)
  then show ?case by simp
next
  case (9 ml prev a ns acc g caps c cs)
  show ?case
  proof (cases "accepts a c")
    case False
    then show ?thesis using 9 by simp
  next
    case True
    show ?thesis
    proof (cases "matchHere ml prev ns (c # acc) g caps cs")
      case None
      then show ?thesis using 9 True by simp
    next
      case (Some r)
      then show ?thesis using 9 True by auto
    qed
  qed
next
  case (10 ml prev a ns acc g caps)
  then show ?case by simp
next
  case (11 ml prev a ns acc g caps c cs)
  show ?case
  proof (cases "matchHere ml prev ns acc g caps (c # cs)")
    case (Some r)
    then show ?thesis using 11 by simp
  next
    case None
    then show ?thesis using 11 by (cases "accepts a c") auto
  qed
next
  case (12 ml prev ns acc g caps s)
  then show ?case by (cases "atLineStart ml prev acc") simp_all
next
  case (13 ml prev ns acc g caps s)
  then show ?case by (cases "atLineEnd ml s") simp_all
next
  case (14 ml prev ns acc g caps s)
  then show ?case by simp
next
  case (15 ml prev ns acc g caps s)
  then show ?case by simp
qed

lemma matchHere_alphabet:
  "matchHere ml prev ns acc g caps s = Some (acc', caps') \<Longrightarrow>
     z \<notin> set acc \<Longrightarrow> \<forall>n \<in> set ns. \<not> nodeAccepts n z \<Longrightarrow> z \<notin> set acc'"

proof (induction ml prev ns acc g caps s rule: matchHere.induct)
  case (1 ml prev acc g caps s)
  then show ?case by simp
next
  case (2 ml prev a ns acc g caps)
  then show ?case by simp
next
  case (3 ml prev a ns acc g caps c cs)
  then show ?case by (cases "accepts a c") auto
next
  case (4 ml prev a ns acc g caps)
  then show ?case by simp
next
  case (5 ml prev a ns acc g caps c cs)
  show ?case
  proof (cases "accepts a c")
    case False
    then show ?thesis using 5 by simp
  next
    case True
    show ?thesis
    proof (cases "matchHere ml prev (Star a # ns) (c # acc) g caps cs")
      case None
      then show ?thesis using 5 True by simp
    next
      case (Some r)
      then show ?thesis using 5 True by auto
    qed
  qed
next
  case (6 ml prev a ns acc g caps)
  then show ?case by simp
next
  case (7 ml prev a ns acc g caps c cs)
  then show ?case by (cases "accepts a c") auto
next
  case (8 ml prev a ns acc g caps)
  then show ?case by simp
next
  case (9 ml prev a ns acc g caps c cs)
  show ?case
  proof (cases "accepts a c")
    case False
    then show ?thesis using 9 by simp
  next
    case True
    show ?thesis
    proof (cases "matchHere ml prev ns (c # acc) g caps cs")
      case None
      then show ?thesis using 9 True by simp
    next
      case (Some r)
      then show ?thesis using 9 True by auto
    qed
  qed
next
  case (10 ml prev a ns acc g caps)
  then show ?case by simp
next
  case (11 ml prev a ns acc g caps c cs)
  show ?case
  proof (cases "matchHere ml prev ns acc g caps (c # cs)")
    case (Some r)
    then show ?thesis using 11 by simp
  next
    case None
    then show ?thesis using 11 by (cases "accepts a c") auto
  qed
next
  case (12 ml prev ns acc g caps s)
  then show ?case by (cases "atLineStart ml prev acc") simp_all
next
  case (13 ml prev ns acc g caps s)
  then show ?case by (cases "atLineEnd ml s") simp_all
next
  case (14 ml prev ns acc g caps s)
  then show ?case by simp
next
  case (15 ml prev ns acc g caps s)
  then show ?case by simp
qed



lemma matchHere_literalPrefix:
  "matchHere ml prev ns acc g caps s = Some r \<Longrightarrow> startsWith s (literalPrefix ns)"
proof (induction ns arbitrary: acc g caps s rule: literalPrefix.induct)
  case (1 c ns)
  show ?case
  proof (cases s)
    case Nil
    then show ?thesis using 1 by simp
  next
    case (Cons d ds)
    have dc: "d = c" using 1(2) Cons by (cases "d = c") simp_all
    then have "matchHere ml prev ns (d # acc) g caps ds = Some r" using 1(2) Cons by simp
    from 1(1)[OF this] show ?thesis using Cons dc by simp
  qed
next
  case (2 ns)
  have "matchHere ml prev ns acc g caps s = Some r"
    using 2(2) by (cases "atLineStart ml prev acc") simp_all
  from 2(1)[OF this] show ?case by simp
next
  case (3 ns)
  then show ?case by simp
qed simp_all

lemma noMatchIn_first_char:
  assumes "literalPrefix (source r) = c # l" and "c \<notin> set p"
  shows "noMatchIn r pre p x"
  using assms(2)
proof (induction p arbitrary: pre)
  case Nil
  then show ?case by simp
next
  case (Cons d p)
  have "matchHere (multiline r) (prevOf pre) (source r) [] 0 [] (d # p @ x) = None"
  proof (cases "matchHere (multiline r) (prevOf pre) (source r) [] 0 [] (d # p @ x)")
    case None
    then show ?thesis .
  next
    case (Some m)
    from matchHere_literalPrefix[OF this] have "d = c" using assms(1) by simp
    then show ?thesis using Cons.prems by simp
  qed
  then show ?case using Cons by simp
qed

lemma startsWith_barrier:
  "z \<in> set S \<Longrightarrow> b \<notin> set S \<Longrightarrow> z \<notin> set v \<Longrightarrow> \<not> startsWith (v @ b # w) S"
proof (induction S arbitrary: v)
  case Nil
  then show ?case by simp
next
  case (Cons s S)
  show ?case
  proof (cases v)
    case Nil
    then show ?thesis using Cons.prems by auto
  next
    case (Cons d v')
    show ?thesis
    proof (cases "z = s")
      case True
      then show ?thesis using Cons.prems \<open>v = d # v'\<close> by auto
    next
      case False
      then have "z \<in> set S" "b \<notin> set S" "z \<notin> set v'"
        using Cons.prems \<open>v = d # v'\<close> by auto
      from Cons.IH[OF this] show ?thesis using \<open>v = d # v'\<close> by simp
    qed
  qed
qed

lemma noMatchIn_lit:
  assumes "z \<in> set (literalPrefix (source r))" and "b \<notin> set (literalPrefix (source r))"
    and "z \<notin> set p"
  shows "noMatchIn r pre p (b # w)"
  using assms(3)
proof (induction p arbitrary: pre)
  case Nil
  then show ?case by simp
next
  case (Cons d p)
  have "matchHere (multiline r) (prevOf pre) (source r) [] 0 [] ((d # p) @ b # w) = None"
  proof (cases "matchHere (multiline r) (prevOf pre) (source r) [] 0 [] ((d # p) @ b # w)")
    case None
    then show ?thesis .
  next
    case (Some m)
    from matchHere_literalPrefix[OF this]
    have "startsWith ((d # p) @ b # w) (literalPrefix (source r))" .
    then show ?thesis using startsWith_barrier[OF assms(1) assms(2) Cons.prems] by blast
  qed
  then show ?case using Cons by simp
qed

lemma prefix_barrier:
  assumes "m @ t = v @ b # w" and "b \<notin> set m"
  shows "set m \<subseteq> set v"
proof -
  from assms(1) consider us where "m = v @ us" "us @ t = b # w"
    | us where "m @ us = v"
    unfolding append_eq_append_conv2 by blast
  then show ?thesis
  proof cases
    case 1
    show ?thesis
    proof (cases us)
      case Nil
      then show ?thesis using 1 by simp
    next
      case (Cons u us')
      then have "u = b" using 1(2) by simp
      then show ?thesis using assms(2) 1(1) Cons by simp
    qed
  next
    case 2
    then show ?thesis by auto
  qed
qed

lemma noMatchIn_must:
  assumes "One (Chr z) \<in> set (source r)" and "\<forall>n \<in> set (source r). \<not> nodeAccepts n b'"
    and "z \<notin> set p" and "z \<noteq> b"
  shows "noMatchIn r pre p (b # b' # w)"
  using assms(3)
proof (induction p arbitrary: pre)
  case Nil
  then show ?case by simp
next
  case (Cons d p)
  have "matchHere (multiline r) (prevOf pre) (source r) [] 0 [] ((d # p) @ b # b' # w) = None"
  proof (cases "matchHere (multiline r) (prevOf pre) (source r) [] 0 [] ((d # p) @ b # b' # w)")
    case None
    then show ?thesis .
  next
    case (Some m)
    obtain acc caps where m: "m = (acc, caps)" by (cases m) auto
    have zin: "z \<in> set acc" using matchHere_must[OF Some[unfolded m]] assms(1) by simp
    have bout: "b' \<notin> set acc" using matchHere_alphabet[OF Some[unfolded m]] assms(2) by simp
    from matchHere_consumed[OF Some[unfolded m]] obtain t where
      "rev acc @ t = ((d # p) @ [b]) @ b' # w" by auto
    from prefix_barrier[OF this] bout have "set (rev acc) \<subseteq> set ((d # p) @ [b])" by simp
    then have "z \<in> set ((d # p) @ [b])" using zin by auto
    then show ?thesis using Cons.prems assms(4) by auto
  qed
  then show ?case using Cons by simp
qed

lemma walkForTsConfig_marker:
  "noMatchIn walkForTsConfig_pattern pre markerLine x" "noMatchIn walkForTsConfig_pattern pre afterLine x"
  by (rule noMatchIn_first_char[where c = "CHR ''f''"],
      simp_all add: walkForTsConfig_pattern_def lit_def markerLine_def afterLine_def PATCH_MARKER_def)+

lemma walkForTsConfig_line:
  "CHR ''('' \<notin> set l \<Longrightarrow> noMatchIn walkForTsConfig_pattern pre l (afterLine @ x)"
  unfolding afterLine_def append.simps
  by (rule noMatchIn_lit[where z = "CHR ''(''"]) (simp_all add: walkForTsConfig_pattern_def lit_def)

lemma recusivelyResolveSync_marker:
  "noMatchIn recusivelyResolveSync_pattern pre markerLine x" "noMatchIn recusivelyResolveSync_pattern pre afterLine x"
  by (rule noMatchIn_first_char[where c = "CHR ''r''"],
      simp_all add: recusivelyResolveSync_pattern_def lit_def markerLine_def afterLine_def PATCH_MARKER_def)+

lemma recusivelyResolveSync_line:
  "CHR ''('' \<notin> set l \<Longrightarrow> noMatchIn recusivelyResolveSync_pattern pre l (afterLine @ x)"
  unfolding afterLine_def append.simps
  by (rule noMatchIn_lit[where z = "CHR ''(''"]) (simp_all add: recusivelyResolveSync_pattern_def lit_def)

lemma supportsColor_marker:
  "noMatchIn supportsColor_pattern pre markerLine x" "noMatchIn supportsColor_pattern pre afterLine x"
  by (rule noMatchIn_first_char[where c = "CHR ''f''"],
      simp_all add: supportsColor_pattern_def lit_def markerLine_def afterLine_def PATCH_MARKER_def)+

lemma supportsColor_line:
  "CHR ''('' \<notin> set l \<Longrightarrow> noMatchIn supportsColor_pattern pre l (afterLine @ x)"
  unfolding afterLine_def append.simps
  by (rule noMatchIn_lit[where z = "CHR ''(''"]) (simp_all add: supportsColor_pattern_def lit_def)

lemma supportsColor2_marker:
  "noMatchIn supportsColor2_pattern pre markerLine x" "noMatchIn supportsColor2_pattern pre afterLine x"
  by (rule noMatchIn_first_char[where c = "CHR ''f''"],
      simp_all add: supportsColor2_pattern_def lit_def markerLine_def afterLine_def PATCH_MARKER_def)+

lemma supportsColor2_line:
  "CHR ''('' \<notin> set l \<Longrightarrow> noMatchIn supportsColor2_pattern pre l (afterLine @ x)"
  unfolding afterLine_def append.simps
  by (rule noMatchIn_lit[where z = "CHR ''(''"]) (simp_all add: supportsColor2_pattern_def lit_def)

lemma bufferutil_marker:
  "noMatchIn bufferutil_pattern pre markerLine x" "noMatchIn bufferutil_pattern pre afterLine x"
  by (rule noMatchIn_first_char[where c = "CHR ''i''"],
      simp_all add: bufferutil_pattern_def lit_def markerLine_def afterLine_def PATCH_MARKER_def)+

lemma bufferutil_line:
  "CHR ''('' \<notin> set l \<Longrightarrow> noMatchIn bufferutil_pattern pre l (afterLine @ x)"
  unfolding afterLine_def append.simps
  by (rule noMatchIn_lit[where z = "CHR ''(''"]) (simp_all add: bufferutil_pattern_def lit_def)

lemma dotenvOptions_marker:
  "noMatchIn dotenvOptions_pattern pre markerLine x" "noMatchIn dotenvOptions_pattern pre afterLine x"
  by (rule noMatchIn_first_char[where c = "CHR 0x22"],
      simp_all add: dotenvOptions_pattern_def lit_def markerLine_def afterLine_def PATCH_MARKER_def)+

lemma dotenvOptions_line:
  "CHR ''@'' \<notin> set l \<Longrightarrow> noMatchIn dotenvOptions_pattern pre l (afterLine @ x)"
  unfolding afterLine_def append.simps
  by (rule noMatchIn_lit[where z = "CHR ''@''"]) (simp_all add: dotenvOptions_pattern_def lit_def)

lemma dotenvConfig_marker:
  "noMatchIn dotenvConfig_pattern pre markerLine x" "noMatchIn dotenvConfig_pattern pre afterLine x"
  by (simp_all add: dotenvConfig_pattern_def lit_def markerLine_def afterLine_def PATCH_MARKER_def)

lemma dotenvConfig_line:
  "CHR ''@'' \<notin> set l \<Longrightarrow> noMatchIn dotenvConfig_pattern pre l (afterLine @ x)"
  unfolding afterLine_def append.simps
  by (rule noMatchIn_lit[where z = "CHR ''@''"]) (simp_all add: dotenvConfig_pattern_def lit_def)

lemma deferHomedir_marker:
  "noMatchIn deferHomedir_pattern pre markerLine x" "noMatchIn deferHomedir_pattern pre afterLine x"
  by (rule noMatchIn_first_char[where c = "CHR ''v''"],
      simp_all add: deferHomedir_pattern_def lit_def markerLine_def afterLine_def PATCH_MARKER_def)+

lemma deferHomedir_line:
  "CHR ''('' \<notin> set l \<Longrightarrow> noMatchIn deferHomedir_pattern pre l (afterLine @ x)"
  unfolding afterLine_def append.simps
  by (rule noMatchIn_lit[where z = "CHR ''(''"]) (simp_all add: deferHomedir_pattern_def lit_def)

lemma deferTmpdir_marker:
  "noMatchIn deferTmpdir_pattern pre markerLine x" "noMatchIn deferTmpdir_pattern pre afterLine x"
  by (rule noMatchIn_first_char[where c = "CHR ''v''"],
      simp_all add: deferTmpdir_pattern_def lit_def markerLine_def afterLine_def PATCH_MARKER_def)+

lemma deferTmpdir_line:
  "CHR ''('' \<notin> set l \<Longrightarrow> noMatchIn deferTmpdir_pattern pre l (afterLine @ x)"
  unfolding afterLine_def append.simps
  by (rule noMatchIn_lit[where z = "CHR ''(''"]) (simp_all add: deferTmpdir_pattern_def lit_def)

lemma lazyHomedir_marker:
  "noMatchIn lazyHomedir_pattern pre markerLine x" "noMatchIn lazyHomedir_pattern pre afterLine x"
  by (rule noMatchIn_first_char[where c = "CHR ''i''"],
      simp_all add: lazyHomedir_pattern_def lit_def markerLine_def afterLine_def PATCH_MARKER_def)+

lemma lazyHomedir_line:
  "CHR ''('' \<notin> set l \<Longrightarrow> noMatchIn lazyHomedir_pattern pre l (afterLine @ x)"
  unfolding afterLine_def append.simps
  by (rule noMatchIn_lit[where z = "CHR ''(''"]) (simp_all add: lazyHomedir_pattern_def lit_def)

lemma lazyTmpdir_marker:
  "noMatchIn lazyTmpdir_pattern pre markerLine x" "noMatchIn lazyTmpdir_pattern pre afterLine x"
  by (rule noMatchIn_first_char[where c = "CHR ''i''"],
      simp_all add: lazyTmpdir_pattern_def lit_def markerLine_def afterLine_def PATCH_MARKER_def)+

lemma lazyTmpdir_line:
  "CHR ''('' \<notin> set l \<Longrightarrow> noMatchIn lazyTmpdir_pattern pre l (afterLine @ x)"
  unfolding afterLine_def append.simps
  by (rule noMatchIn_lit[where z = "CHR ''(''"]) (simp_all add: lazyTmpdir_pattern_def lit_def)

lemma safeRegister_marker:
  "noMatchIn safeRegister_pattern pre markerLine x" "noMatchIn safeRegister_pattern pre afterLine x"
  by (rule noMatchIn_first_char[where c = "CHR ''s''"],
      simp_all add: safeRegister_pattern_def lit_def markerLine_def afterLine_def PATCH_MARKER_def)+

lemma safeRegister_line:
  "CHR ''('' \<notin> set l \<Longrightarrow> noMatchIn safeRegister_pattern pre l (afterLine @ x)"
  unfolding afterLine_def markerLine_def PATCH_MARKER_def append.simps
  by (rule noMatchIn_must[where z = "CHR ''(''"])
     (simp_all add: safeRegister_pattern_def lit_def isSpace_def)

lemma configLoading_marker:
  "noMatchIn configLoading_pattern pre markerLine x" "noMatchIn configLoading_pattern pre afterLine x"
  by (rule noMatchIn_first_char[where c = "CHR ''c''"],
      simp_all add: configLoading_pattern_def lit_def markerLine_def afterLine_def PATCH_MARKER_def)+

lemma configLoading_line:
  "CHR ''('' \<notin> set l \<Longrightarrow> noMatchIn configLoading_pattern pre l (afterLine @ x)"
  unfolding afterLine_def append.simps
  by (rule noMatchIn_lit[where z = "CHR ''(''"]) (simp_all add: configLoading_pattern_def lit_def)

lemma schemaLoading_marker:
  "noMatchIn schemaLoading_pattern pre markerLine x" "noMatchIn schemaLoading_pattern pre afterLine x"
  by (rule noMatchIn_first_char[where c = "CHR ''c''"],
      simp_all add: schemaLoading_pattern_def lit_def markerLine_def afterLine_def PATCH_MARKER_def)+

lemma schemaLoading_line:
  "CHR ''('' \<notin> set l \<Longrightarrow> noMatchIn schemaLoading_pattern pre l (afterLine @ x)"
  unfolding afterLine_def append.simps
  by (rule noMatchIn_lit[where z = "CHR ''(''"]) (simp_all add: schemaLoading_pattern_def lit_def)

lemma cliExit_marker:
  "noMatchIn cliExit_pattern pre markerLine x" "noMatchIn cliExit_pattern pre afterLine x"
  by (rule noMatchIn_first_char[where c = "CHR ''r''"],
      simp_all add: cliExit_pattern_def lit_def markerLine_def afterLine_def PATCH_MARKER_def)+

lemma cliExit_line:
  "CHR ''('' \<notin> set l \<Longrightarrow> noMatchIn cliExit_pattern pre l (afterLine @ x)"
  unfolding afterLine_def append.simps
  by (rule noMatchIn_lit[where z = "CHR ''(''"]) (simp_all add: cliExit_pattern_def lit_def)


section \<open>The rule pipeline and the commit gate\<close>

lemma applyRules_acc:
  "applyRules rl c rs = (fst (applyRules rl c []), rs @ snd (applyRules rl c []))"
proof (induction rl arbitrary: c rs)
  case Nil
  then show ?case by simp
next
  case (Cons x rl)
  obtain nm pat rp where x: "x = (nm, pat, rp)" by (cases x) auto
  obtain nc res where ap: "applyPatch c nm pat rp = (nc, res)"
    by (cases "applyPatch c nm pat rp") auto
  have "applyRules rl nc (rs @ [res]) =
          (fst (applyRules rl nc []), (rs @ [res]) @ snd (applyRules rl nc []))"
    using Cons.IH by blast
  moreover have "applyRules rl nc [res] =
          (fst (applyRules rl nc []), [res] @ snd (applyRules rl nc []))"
    using Cons.IH by blast
  ultimately show ?case by (simp add: x ap)
qed

lemma applyRules_Cons:
  "applyRules ((nm, pat, rp) # rl) c [] =
     (fst (applyRules rl (fst (applyPatch c nm pat rp)) []),
      snd (applyPatch c nm pat rp) # snd (applyRules rl (fst (applyPatch c nm pat rp)) []))"
proof -
  obtain nc res where ap: "applyPatch c nm pat rp = (nc, res)"
    by (cases "applyPatch c nm pat rp") auto
  have "applyRules rl nc [res] = (fst (applyRules rl nc []), [res] @ snd (applyRules rl nc []))"
    by (rule applyRules_acc)
  then show ?thesis by (simp add: ap)
qed

lemma applyPatch_name: "name (snd (applyPatch c nm pat rp)) = nm"
  by (simp add: applyPatch_def Let_def)

lemma applyRules_names: "map name (snd (applyRules rl c [])) = map fst rl"
proof (induction rl arbitrary: c)
  case Nil
  then show ?case by simp
next
  case (Cons x rl)
  obtain nm pat rp where x: "x = (nm, pat, rp)" by (cases x) auto
  show ?case unfolding x applyRules_Cons using Cons.IH by (simp add: applyPatch_name)
qed

lemma applyRules_length: "length (snd (applyRules rl c [])) = length rl"
  using applyRules_names[of rl c] by (metis length_map)

lemma applyRules_nth:
  "i < length rl \<Longrightarrow>
     snd (applyRules rl c []) ! i =
       snd (applyPatch (fst (applyRules (take i rl) c [])) (fst (rl ! i)) (fst (snd (rl ! i)))
              (snd (snd (rl ! i))))"
proof (induction rl arbitrary: c i)
  case Nil
  then show ?case by simp
next
  case (Cons x rl)
  obtain nm pat rp where x: "x = (nm, pat, rp)" by (cases x) auto
  show ?case
  proof (cases i)
    case 0
    then show ?thesis unfolding x by (simp add: applyRules_Cons del: applyRules.simps(2))
  next
    case (Suc j)
    then have "j < length rl" using Cons.prems by simp
    from Cons.IH[OF this] show ?thesis unfolding x Suc
      by (simp add: applyRules_Cons del: applyRules.simps(2))
  qed
qed

lemma applyRules_append:
  "fst (applyRules (xs @ ys) c []) = fst (applyRules ys (fst (applyRules xs c [])) [])"
proof (induction xs arbitrary: c)
  case Nil
  then show ?case by simp
next
  case (Cons x xs)
  obtain nm pat rp where x: "x = (nm, pat, rp)" by (cases x) auto
  show ?case unfolding x append_Cons applyRules_Cons using Cons.IH by simp
qed

lemma applyPatch_buffer:
  "fst (applyPatch c nm sp rp) =
     (if test (regExpOf sp) c \<and> replace c (regExpOf sp) rp \<noteq> c
      then replace c (regExpOf sp) rp else c)"
  by (simp add: applyPatch_def regExpOf_def Let_def)

text \<open>The pipeline hands each rule the text of the specification.\<close>

lemma ruleInput_applyRules:
  "i \<le> length rules \<Longrightarrow> ruleInput i c = fst (applyRules (take i rules) c [])"
proof (induction i)
  case 0
  then show ?case by simp
next
  case (Suc i)
  then have i: "i < length rules" by simp
  obtain nm sp rp where r: "rules ! i = (nm, sp, rp)" by (cases "rules ! i") auto
  have t: "take (Suc i) rules = take i rules @ [(nm, sp, rp)]"
    using take_Suc_conv_app_nth[OF i] r by simp
  have "fst (applyRules (take (Suc i) rules) c []) =
          fst (applyPatch (fst (applyRules (take i rules) c [])) nm sp rp)"
    unfolding t applyRules_append by (simp add: applyRules_Cons del: applyRules.simps(2))
  then show ?case using Suc.IH i r by (simp add: applyPatch_buffer)
qed

lemma rules_length: "length rules = 15"
  by (simp add: rules_def)

lemma rule_names:
  "map fst rules =
     [''walkForTsConfig'', ''recusivelyResolveSync'', ''stub _supportsColor (chalk)'',
      ''stub supportsColor2 (colors)'', ''skip bufferutil (ws)'', ''stub dotenv env-options'',
      ''stub dotenv config auto-call'', ''defer homedir (env-paths)'', ''defer tmpdir (env-paths)'',
      ''lazy homedir usage'', ''lazy tmpdir usage'', ''safeRegister (disable esbuild)'',
      configLoading_name, schemaLoading_name, ''CLI exit handler'']"
  by (simp add: rules_def)

text \<open>What a run does once the file is found, read and free of the marker.\<close>

lemma patchFile_rules:
  assumes "fs binPath = Some content"
    and "\<not> includesStr content PATCH_MARKER"
    and "applyRules rules (insertMarker content) [] = (patched, rs)"
  shows "results (patchFile binPath version fs) = rs"
    and "filter (\<lambda>r. \<not> success r \<and> name r \<in> set criticalPatches) rs \<noteq> [] \<Longrightarrow>
           writes (patchFile binPath version fs) = []
           \<and> outcome (patchFile binPath version fs) = Exit 1
           \<and> last (console (patchFile binPath version fs)) = (Error, CriticalFailed)"
    and "filter (\<lambda>r. \<not> success r \<and> name r \<in> set criticalPatches) rs = [] \<Longrightarrow>
           writes (patchFile binPath version fs) = [(binPath, patched)]
           \<and> outcome (patchFile binPath version fs) = Returned
           \<and> last (console (patchFile binPath version fs)) =
               (Log, if list_ex (\<lambda>r. \<not> success r) rs then NonCriticalFailed
                     else PatchedSuccessfully)"
  using assms by (simp_all add: patchFile_def Let_def)

lemma patchDrizzleKit_found:
  "findDrizzleKitBin entries = Some (binPath, version) \<Longrightarrow>
     patchDrizzleKit entries fs = patchFile binPath version fs"
  by (simp add: patchDrizzleKit_def)

text \<open>A critical rule failed exactly when one of the rules 12, 13 and 14 failed.\<close>

lemma critical_iff:
  assumes "map name rs = map fst rules"
  shows "(\<exists>r \<in> set rs. \<not> success r \<and> name r \<in> set criticalPatches) \<longleftrightarrow>
         \<not> (success (rs ! 11) \<and> success (rs ! 12) \<and> success (rs ! 13))"
proof -
  from assms[unfolded rule_names] obtain r0 r1 r2 r3 r4 r5 r6 r7 r8 r9 r10 r11 r12 r13 r14 where
    rs: "rs = [r0, r1, r2, r3, r4, r5, r6, r7, r8, r9, r10, r11, r12, r13, r14]"
    and n: "name r0 = ''walkForTsConfig''" "name r1 = ''recusivelyResolveSync''"
      "name r2 = ''stub _supportsColor (chalk)''" "name r3 = ''stub supportsColor2 (colors)''"
      "name r4 = ''skip bufferutil (ws)''" "name r5 = ''stub dotenv env-options''"
      "name r6 = ''stub dotenv config auto-call''" "name r7 = ''defer homedir (env-paths)''"
      "name r8 = ''defer tmpdir (env-paths)''" "name r9 = ''lazy homedir usage''"
      "name r10 = ''lazy tmpdir usage''" "name r11 = ''safeRegister (disable esbuild)''"
      "name r12 = configLoading_name" "name r13 = schemaLoading_name"
      "name r14 = ''CLI exit handler''"
    by (auto simp: map_eq_Cons_conv)
  show ?thesis unfolding rs
    by (simp add: n criticalPatches_def configLoading_name_def schemaLoading_name_def)
qed

subsection \<open>The fixtures, evaluated\<close>

lemma ex_found: "findDrizzleKitBin exEntries = Some (exPath, ''0.31.8'')"
  by code_simp

lemma exBundle_unmarked: "\<not> includesStr exBundle PATCH_MARKER"
  by code_simp

lemma exBroken_unmarked: "\<not> includesStr exBroken PATCH_MARKER"
  by code_simp

lemma exBundle_rules:
  "applyRules rules (insertMarker exBundle) [] =
     (exPatched,
      [\<lparr>name = ''walkForTsConfig'', success = False, error = Some ''Pattern not found''\<rparr>,
      \<lparr>name = ''recusivelyResolveSync'', success = False, error = Some ''Pattern not found''\<rparr>,
      \<lparr>name = ''stub _supportsColor (chalk)'', success = False, error = Some ''Pattern not found''\<rparr>,
      \<lparr>name = ''stub supportsColor2 (colors)'', success = False, error = Some ''Pattern not found''\<rparr>,
      \<lparr>name = ''skip bufferutil (ws)'', success = False, error = Some ''Pattern not found''\<rparr>,
      \<lparr>name = ''stub dotenv env-options'', success = False, error = Some ''Pattern not found''\<rparr>,
      \<lparr>name = ''stub dotenv config auto-call'', success = False, error = Some ''Pattern not found''\<rparr>,
      \<lparr>name = ''defer homedir (env-paths)'', success = False, error = Some ''Pattern not found''\<rparr>,
      \<lparr>name = ''defer tmpdir (env-paths)'', success = False, error = Some ''Pattern not found''\<rparr>,
      \<lparr>name = ''lazy homedir usage'', success = False, error = Some ''Pattern not found''\<rparr>,
      \<lparr>name = ''lazy tmpdir usage'', success = False, error = Some ''Pattern not found''\<rparr>,
      \<lparr>name = ''safeRegister (disable esbuild)'', success = True, error = None\<rparr>,
      \<lparr>name = configLoading_name, success = True, error = None\<rparr>,
      \<lparr>name = schemaLoading_name, success = True, error = None\<rparr>,
      \<lparr>name = ''CLI exit handler'', success = False, error = Some ''Pattern not found''\<rparr>])"
  by code_simp

lemma exBroken_rules:
  "applyRules rules (insertMarker exBroken) [] =
     (''#!/usr/bin/env node\<newline>// DRIZZLE-KIT-DENO-PATCHED-V10\<newline>safeRegister = async () => {\<newline>    return { unregister: () => {} }; // PATCHED: esbuild disabled for Deno\<newline>'',
      [\<lparr>name = ''walkForTsConfig'', success = False, error = Some ''Pattern not found''\<rparr>,
      \<lparr>name = ''recusivelyResolveSync'', success = False, error = Some ''Pattern not found''\<rparr>,
      \<lparr>name = ''stub _supportsColor (chalk)'', success = False, error = Some ''Pattern not found''\<rparr>,
      \<lparr>name = ''stub supportsColor2 (colors)'', success = False, error = Some ''Pattern not found''\<rparr>,
      \<lparr>name = ''skip bufferutil (ws)'', success = False, error = Some ''Pattern not found''\<rparr>,
      \<lparr>name = ''stub dotenv env-options'', success = False, error = Some ''Pattern not found''\<rparr>,
      \<lparr>name = ''stub dotenv config auto-call'', success = False, error = Some ''Pattern not found''\<rparr>,
      \<lparr>name = ''defer homedir (env-paths)'', success = False, error = Some ''Pattern not found''\<rparr>,
      \<lparr>name = ''defer tmpdir (env-paths)'', success = False, error = Some ''Pattern not found''\<rparr>,
      \<lparr>name = ''lazy homedir usage'', success = False, error = Some ''Pattern not found''\<rparr>,
      \<lparr>name = ''lazy tmpdir usage'', success = False, error = Some ''Pattern not found''\<rparr>,
      \<lparr>name = ''safeRegister (disable esbuild)'', success = True, error = None\<rparr>,
      \<lparr>name = configLoading_name, success = False, error = Some ''Pattern not found''\<rparr>,
      \<lparr>name = schemaLoading_name, success = False, error = Some ''Pattern not found''\<rparr>,
      \<lparr>name = ''CLI exit handler'', success = False, error = Some ''Pattern not found''\<rparr>])"
  by code_simp


lemma exPatched_marked: "includesStr exPatched PATCH_MARKER"
  by code_simp

lemma exConsumed_unmarked: "\<not> includesStr exConsumed PATCH_MARKER"
  by code_simp

lemma exConsumed_rules:
  "applyRules rules (insertMarker exConsumed) [] =
     (exConsumedPatched,
      [\<lparr>name = ''walkForTsConfig'', success = True, error = None\<rparr>,
      \<lparr>name = ''recusivelyResolveSync'', success = False, error = Some ''Pattern not found''\<rparr>,
      \<lparr>name = ''stub _supportsColor (chalk)'', success = False, error = Some ''Pattern not found''\<rparr>,
      \<lparr>name = ''stub supportsColor2 (colors)'', success = False, error = Some ''Pattern not found''\<rparr>,
      \<lparr>name = ''skip bufferutil (ws)'', success = False, error = Some ''Pattern not found''\<rparr>,
      \<lparr>name = ''stub dotenv env-options'', success = False, error = Some ''Pattern not found''\<rparr>,
      \<lparr>name = ''stub dotenv config auto-call'', success = False, error = Some ''Pattern not found''\<rparr>,
      \<lparr>name = ''defer homedir (env-paths)'', success = False, error = Some ''Pattern not found''\<rparr>,
      \<lparr>name = ''defer tmpdir (env-paths)'', success = False, error = Some ''Pattern not found''\<rparr>,
      \<lparr>name = ''lazy homedir usage'', success = False, error = Some ''Pattern not found''\<rparr>,
      \<lparr>name = ''lazy tmpdir usage'', success = False, error = Some ''Pattern not found''\<rparr>,
      \<lparr>name = ''safeRegister (disable esbuild)'', success = True, error = None\<rparr>,
      \<lparr>name = configLoading_name, success = True, error = None\<rparr>,
      \<lparr>name = schemaLoading_name, success = True, error = None\<rparr>,
      \<lparr>name = ''CLI exit handler'', success = False, error = Some ''Pattern not found''\<rparr>])"
  by code_simp

lemma exConsumed_fifth_alone:
  "test bufferutil_pattern (insertMarker exConsumed)
   \<and> success (snd (applyPatch (insertMarker exConsumed) ''skip bufferutil (ws)''
                     (Pattern bufferutil_pattern) (Template bufferutil_replacement)))"
  by code_simp

lemma exConsumed_fifth_input: "ruleInput 4 (insertMarker exConsumed) = exConsumedAfterFirst"
  by code_simp

lemma exConsumed_fifth_result:
  "snd (applyPatch exConsumedAfterFirst (fst (rules ! 4)) (fst (snd (rules ! 4)))
          (snd (snd (rules ! 4))))
     = \<lparr>name = ''skip bufferutil (ws)'', success = False, error = Some ''Pattern not found''\<rparr>"
  by code_simp

lemma run_results:
  assumes "findDrizzleKitBin entries = Some (binPath, version)"
    and "fs binPath = Some content"
    and "\<not> includesStr content PATCH_MARKER"
  shows "results (patchDrizzleKit entries fs) = snd (applyRules rules (insertMarker content) [])"
  using assms by (simp add: patchDrizzleKit_def patchFile_def Let_def split: prod.splits)

lemma exBundle_results:
  "results (patchDrizzleKit exEntries [exPath \<mapsto> exBundle]) =
     snd (applyRules rules (insertMarker exBundle) [])"
  by (rule run_results[where content = exBundle, OF ex_found _ exBundle_unmarked]) simp

lemma exBroken_results:
  "results (patchDrizzleKit exEntries [exPath \<mapsto> exBroken]) =
     snd (applyRules rules (insertMarker exBroken) [])"
  by (rule run_results[where content = exBroken, OF ex_found _ exBroken_unmarked]) simp

section \<open>Claims\<close>

text \<open>
  C1. Commit gate. A run that reaches the rules, and in which a rule named in
  \<open>criticalPatches\<close> ends not applied, writes nothing (the files are as before), ends
  with \<^verbatim>\<open>Deno.exit(1)\<close> and reports the failure last. A run in which no critical
  rule failed writes the whole buffer to the path of the artifact in one write,
  returns, and reports last that the patch succeeded (or that only rules that are
  not critical failed), whatever the optional rules did.
\<close>

theorem commit_gate:
  assumes "findDrizzleKitBin entries = Some (binPath, version)"
    and "fs binPath = Some content"
    and "\<not> includesStr content PATCH_MARKER"
  shows "(if \<exists>r \<in> set (results (patchDrizzleKit entries fs)).
               \<not> success r \<and> name r \<in> set criticalPatches
          then writes (patchDrizzleKit entries fs) = []
             \<and> writeAll (writes (patchDrizzleKit entries fs)) fs = fs
             \<and> outcome (patchDrizzleKit entries fs) = Exit 1
             \<and> last (console (patchDrizzleKit entries fs)) = (Error, CriticalFailed)
          else writes (patchDrizzleKit entries fs) =
                 [(binPath, fst (applyRules rules (insertMarker content) []))]
             \<and> writeAll (writes (patchDrizzleKit entries fs)) fs =
                 fs(binPath \<mapsto> fst (applyRules rules (insertMarker content) []))
             \<and> outcome (patchDrizzleKit entries fs) = Returned
             \<and> last (console (patchDrizzleKit entries fs)) =
                 (Log, if list_ex (\<lambda>r. \<not> success r) (results (patchDrizzleKit entries fs))
                       then NonCriticalFailed else PatchedSuccessfully))"
proof -
  obtain patched rs where ar: "applyRules rules (insertMarker content) [] = (patched, rs)"
    by (cases "applyRules rules (insertMarker content) []") auto
  note pf = patchFile_rules[of fs binPath content patched rs version, OF assms(2) assms(3) ar]
  have run: "patchDrizzleKit entries fs = patchFile binPath version fs"
    using assms(1) by (rule patchDrizzleKit_found)
  show ?thesis
  proof (cases "filter (\<lambda>r. \<not> success r \<and> name r \<in> set criticalPatches) rs = []")
    case True
    then have "\<not> (\<exists>r \<in> set rs. \<not> success r \<and> name r \<in> set criticalPatches)"
      by (simp add: filter_empty_conv)
    then show ?thesis using pf(1) pf(3)[OF True] by (simp add: run ar)
  next
    case False
    then have "\<exists>r \<in> set rs. \<not> success r \<and> name r \<in> set criticalPatches"
      by (simp add: filter_empty_conv)
    then show ?thesis using pf(1) pf(2)[OF False] by (simp add: run)
  qed
qed

theorem commit_gate_witness:
  "findDrizzleKitBin exEntries = Some (exPath, ''0.31.8'')
   \<and> [exPath \<mapsto> exBundle] exPath = Some exBundle
   \<and> \<not> includesStr exBundle PATCH_MARKER
   \<and> writes (patchDrizzleKit exEntries [exPath \<mapsto> exBundle]) = [(exPath, exPatched)]
   \<and> outcome (patchDrizzleKit exEntries [exPath \<mapsto> exBundle]) = Returned
   \<and> [exPath \<mapsto> exBroken] exPath = Some exBroken
   \<and> \<not> includesStr exBroken PATCH_MARKER
   \<and> writeAll (writes (patchDrizzleKit exEntries [exPath \<mapsto> exBroken])) [exPath \<mapsto> exBroken]
       = [exPath \<mapsto> exBroken]
   \<and> outcome (patchDrizzleKit exEntries [exPath \<mapsto> exBroken]) = Exit 1"
proof -
  have a: "[exPath \<mapsto> exBundle] exPath = Some exBundle" by simp
  have b: "[exPath \<mapsto> exBroken] exPath = Some exBroken" by simp
  have ca: "\<not> (\<exists>r \<in> set (results (patchDrizzleKit exEntries [exPath \<mapsto> exBundle])).
               \<not> success r \<and> name r \<in> set criticalPatches)"
    unfolding exBundle_results exBundle_rules
    by (simp add: criticalPatches_def configLoading_name_def schemaLoading_name_def)
  have cb: "\<exists>r \<in> set (results (patchDrizzleKit exEntries [exPath \<mapsto> exBroken])).
               \<not> success r \<and> name r \<in> set criticalPatches"
    unfolding exBroken_results exBroken_rules by (simp add: criticalPatches_def)
  show ?thesis
    using commit_gate[where entries = exEntries and binPath = exPath and fs = "[exPath \<mapsto> exBundle]"
        and content = exBundle, OF ex_found a exBundle_unmarked]
      commit_gate[where entries = exEntries and binPath = exPath and fs = "[exPath \<mapsto> exBroken]"
        and content = exBroken, OF ex_found b exBroken_unmarked]
      ca cb ex_found exBundle_unmarked exBroken_unmarked
    by (simp add: exBundle_rules)
qed

text \<open>
  C2. Marker check. When the artifact holds the current marker, the run reports that
  it is already patched, applies no rule, writes nothing and returns.
\<close>

theorem marker_noop:
  assumes "findDrizzleKitBin entries = Some (binPath, version)"
    and "fs binPath = Some content"
    and "includesStr content PATCH_MARKER"
  shows "results (patchDrizzleKit entries fs) = []
       \<and> writes (patchDrizzleKit entries fs) = []
       \<and> writeAll (writes (patchDrizzleKit entries fs)) fs = fs
       \<and> outcome (patchDrizzleKit entries fs) = Returned
       \<and> last (console (patchDrizzleKit entries fs)) = (Log, AlreadyPatched)"
  using assms by (simp add: patchDrizzleKit_def patchFile_def Let_def)

theorem marker_noop_witness:
  "findDrizzleKitBin exEntries = Some (exPath, ''0.31.8'')
   \<and> [exPath \<mapsto> exPatched] exPath = Some exPatched
   \<and> includesStr exPatched PATCH_MARKER
   \<and> results (patchDrizzleKit exEntries [exPath \<mapsto> exPatched]) = []
   \<and> writes (patchDrizzleKit exEntries [exPath \<mapsto> exPatched]) = []
   \<and> outcome (patchDrizzleKit exEntries [exPath \<mapsto> exPatched]) = Returned
   \<and> last (console (patchDrizzleKit exEntries [exPath \<mapsto> exPatched])) = (Log, AlreadyPatched)"
proof -
  have a: "[exPath \<mapsto> exPatched] exPath = Some exPatched" by simp
  show ?thesis
    using marker_noop[where entries = exEntries and binPath = exPath and fs = "[exPath \<mapsto> exPatched]"
        and content = exPatched, OF ex_found a exPatched_marked] ex_found exPatched_marked by simp
qed

text \<open>
  C6. The pipeline does not stop at a failure. A run that reaches the rules gives one
  result for each of the fifteen rules, in the order of the rules. The result at
  position \<open>i\<close> is that of \<open>applyPatch\<close> for rule \<open>i\<close> on the text \<open>ruleInput i\<close>: the text
  with the marker for the first rule, and for each later rule what the rule before it
  gave (the replaced text when that rule was applied, its own input when it was not),
  whether the rules before were applied or not. What the last rule gives is the
  buffer of the pipeline, and it is what a run that returns writes. The run ends with
  \<^verbatim>\<open>Deno.exit(1)\<close>, writing nothing, exactly when a critical rule is among the failed
  ones, and returns otherwise.
\<close>

theorem pipeline_not_fail_fast:
  assumes "findDrizzleKitBin entries = Some (binPath, version)"
    and "fs binPath = Some content"
    and "\<not> includesStr content PATCH_MARKER"
  shows "length (results (patchDrizzleKit entries fs)) = 15
       \<and> map name (results (patchDrizzleKit entries fs)) = map fst rules
       \<and> (\<forall>i < 15. results (patchDrizzleKit entries fs) ! i =
             snd (applyPatch (ruleInput i (insertMarker content))
                    (fst (rules ! i)) (fst (snd (rules ! i))) (snd (snd (rules ! i)))))
       \<and> fst (applyRules rules (insertMarker content) []) = ruleInput 15 (insertMarker content)
       \<and> (outcome (patchDrizzleKit entries fs) = Returned \<longrightarrow>
            writes (patchDrizzleKit entries fs) = [(binPath, ruleInput 15 (insertMarker content))])
       \<and> (outcome (patchDrizzleKit entries fs) = Exit 1 \<longrightarrow>
            writes (patchDrizzleKit entries fs) = [])
       \<and> (outcome (patchDrizzleKit entries fs) = Exit 1 \<longleftrightarrow>
            (\<exists>r \<in> set (results (patchDrizzleKit entries fs)).
               \<not> success r \<and> name r \<in> set criticalPatches))
       \<and> (outcome (patchDrizzleKit entries fs) = Returned \<longleftrightarrow>
            \<not> (\<exists>r \<in> set (results (patchDrizzleKit entries fs)).
               \<not> success r \<and> name r \<in> set criticalPatches))"
proof -
  obtain patched rs where ar: "applyRules rules (insertMarker content) [] = (patched, rs)"
    by (cases "applyRules rules (insertMarker content) []") auto
  note pf = patchFile_rules[of fs binPath content patched rs version, OF assms(2) assms(3) ar]
  have run: "patchDrizzleKit entries fs = patchFile binPath version fs"
    using assms(1) by (rule patchDrizzleKit_found)
  have rs: "rs = snd (applyRules rules (insertMarker content) [])" using ar by simp
  have pa: "patched = fst (applyRules rules (insertMarker content) [])" using ar by simp
  have len: "length rs = 15" unfolding rs applyRules_length by (rule rules_length)
  have names: "map name rs = map fst rules" unfolding rs by (rule applyRules_names)
  have inp: "\<And>i. i \<le> 15 \<Longrightarrow>
      fst (applyRules (take i rules) (insertMarker content) []) = ruleInput i (insertMarker content)"
    using ruleInput_applyRules[of _ "insertMarker content"] by (simp add: rules_length)
  have nth: "\<forall>i < 15. rs ! i =
             snd (applyPatch (ruleInput i (insertMarker content))
                    (fst (rules ! i)) (fst (snd (rules ! i))) (snd (snd (rules ! i))))"
  proof (intro allI impI)
    fix i :: nat
    assume i: "i < 15"
    then have "rs ! i =
             snd (applyPatch (fst (applyRules (take i rules) (insertMarker content) []))
                    (fst (rules ! i)) (fst (snd (rules ! i))) (snd (snd (rules ! i))))"
      unfolding rs using applyRules_nth[of i rules "insertMarker content"]
      by (simp add: rules_length)
    then show "rs ! i =
             snd (applyPatch (ruleInput i (insertMarker content))
                    (fst (rules ! i)) (fst (snd (rules ! i))) (snd (snd (rules ! i))))"
      using inp[of i] i by simp
  qed
  have last: "patched = ruleInput 15 (insertMarker content)"
    unfolding pa using inp[of 15] by (simp add: rules_length)
  have gate: "(outcome (patchFile binPath version fs) = Exit 1 \<longleftrightarrow>
            (\<exists>r \<in> set rs. \<not> success r \<and> name r \<in> set criticalPatches))
     \<and> (outcome (patchFile binPath version fs) = Returned \<longleftrightarrow>
            \<not> (\<exists>r \<in> set rs. \<not> success r \<and> name r \<in> set criticalPatches))
     \<and> (outcome (patchFile binPath version fs) = Returned \<longrightarrow>
            writes (patchFile binPath version fs) = [(binPath, patched)])
     \<and> (outcome (patchFile binPath version fs) = Exit 1 \<longrightarrow>
            writes (patchFile binPath version fs) = [])"
  proof (cases "filter (\<lambda>r. \<not> success r \<and> name r \<in> set criticalPatches) rs = []")
    case True
    then have "\<not> (\<exists>r \<in> set rs. \<not> success r \<and> name r \<in> set criticalPatches)"
      by (simp add: filter_empty_conv)
    then show ?thesis using pf(3)[OF True] by simp
  next
    case False
    then have "\<exists>r \<in> set rs. \<not> success r \<and> name r \<in> set criticalPatches"
      by (simp add: filter_empty_conv)
    then show ?thesis using pf(2)[OF False] by simp
  qed
  have fin: "fst (applyRules rules (insertMarker content) []) = ruleInput 15 (insertMarker content)"
    using pa last by simp
  show ?thesis unfolding run pf(1) using len names nth gate fin last by blast
qed

theorem pipeline_not_fail_fast_witness:
  "findDrizzleKitBin exEntries = Some (exPath, ''0.31.8'')
   \<and> [exPath \<mapsto> exBroken] exPath = Some exBroken
   \<and> \<not> includesStr exBroken PATCH_MARKER
   \<and> map success (results (patchDrizzleKit exEntries [exPath \<mapsto> exBroken])) =
       [False, False, False, False, False, False, False, False, False, False, False, True,
        False, False, False]
   \<and> map name (results (patchDrizzleKit exEntries [exPath \<mapsto> exBroken])) = map fst rules
   \<and> outcome (patchDrizzleKit exEntries [exPath \<mapsto> exBroken]) = Exit 1
   \<and> [exPath \<mapsto> exConsumed] exPath = Some exConsumed
   \<and> \<not> includesStr exConsumed PATCH_MARKER
   \<and> test bufferutil_pattern (insertMarker exConsumed)
   \<and> success (snd (applyPatch (insertMarker exConsumed) ''skip bufferutil (ws)''
                     (Pattern bufferutil_pattern) (Template bufferutil_replacement)))
   \<and> ruleInput 4 (insertMarker exConsumed) = exConsumedAfterFirst
   \<and> results (patchDrizzleKit exEntries [exPath \<mapsto> exConsumed]) ! 4 =
       \<lparr>name = ''skip bufferutil (ws)'', success = False, error = Some ''Pattern not found''\<rparr>
   \<and> map success (results (patchDrizzleKit exEntries [exPath \<mapsto> exConsumed])) =
       [True, False, False, False, False, False, False, False, False, False, False, True,
        True, True, False]
   \<and> outcome (patchDrizzleKit exEntries [exPath \<mapsto> exConsumed]) = Returned
   \<and> ruleInput 15 (insertMarker exConsumed) = exConsumedPatched
   \<and> writes (patchDrizzleKit exEntries [exPath \<mapsto> exConsumed]) = [(exPath, exConsumedPatched)]"
proof -
  have b: "[exPath \<mapsto> exBroken] exPath = Some exBroken" by simp
  have c: "[exPath \<mapsto> exConsumed] exPath = Some exConsumed" by simp
  have cb: "\<exists>r \<in> set (results (patchDrizzleKit exEntries [exPath \<mapsto> exBroken])).
               \<not> success r \<and> name r \<in> set criticalPatches"
    unfolding exBroken_results exBroken_rules by (simp add: criticalPatches_def)
  have s: "map success (results (patchDrizzleKit exEntries [exPath \<mapsto> exBroken])) =
       [False, False, False, False, False, False, False, False, False, False, False, True,
        False, False, False]"
    unfolding exBroken_results exBroken_rules by simp
  note tb = pipeline_not_fail_fast[where entries = exEntries and binPath = exPath
        and fs = "[exPath \<mapsto> exBroken]" and content = exBroken, OF ex_found b exBroken_unmarked]
  note tc = pipeline_not_fail_fast[where entries = exEntries and binPath = exPath
        and fs = "[exPath \<mapsto> exConsumed]" and content = exConsumed, OF ex_found c exConsumed_unmarked]
  have rc: "results (patchDrizzleKit exEntries [exPath \<mapsto> exConsumed]) =
     snd (applyRules rules (insertMarker exConsumed) [])"
    by (rule run_results[where content = exConsumed, OF ex_found _ exConsumed_unmarked]) simp
  have sc: "map success (results (patchDrizzleKit exEntries [exPath \<mapsto> exConsumed])) =
       [True, False, False, False, False, False, False, False, False, False, False, True,
        True, True, False]"
    unfolding rc exConsumed_rules by simp
  have cc: "\<not> (\<exists>r \<in> set (results (patchDrizzleKit exEntries [exPath \<mapsto> exConsumed])).
               \<not> success r \<and> name r \<in> set criticalPatches)"
    unfolding rc exConsumed_rules
    by (simp add: criticalPatches_def configLoading_name_def schemaLoading_name_def)
  have ob: "outcome (patchDrizzleKit exEntries [exPath \<mapsto> exBroken]) = Exit 1"
    using tb cb by blast
  have nb: "map name (results (patchDrizzleKit exEntries [exPath \<mapsto> exBroken])) = map fst rules"
    using tb by blast
  have oc: "outcome (patchDrizzleKit exEntries [exPath \<mapsto> exConsumed]) = Returned"
    using tc cc by blast
  have fin: "ruleInput 15 (insertMarker exConsumed) = exConsumedPatched"
  proof -
    have "fst (applyRules rules (insertMarker exConsumed) []) = ruleInput 15 (insertMarker exConsumed)"
      using tc by blast
    then show ?thesis unfolding exConsumed_rules by simp
  qed
  have wc: "writes (patchDrizzleKit exEntries [exPath \<mapsto> exConsumed]) = [(exPath, exConsumedPatched)]"
  proof -
    have "writes (patchDrizzleKit exEntries [exPath \<mapsto> exConsumed])
            = [(exPath, ruleInput 15 (insertMarker exConsumed))]"
      using tc oc by blast
    then show ?thesis unfolding fin .
  qed
  have r4: "results (patchDrizzleKit exEntries [exPath \<mapsto> exConsumed]) ! 4 =
       \<lparr>name = ''skip bufferutil (ws)'', success = False, error = Some ''Pattern not found''\<rparr>"
  proof -
    have "\<forall>i < 15. results (patchDrizzleKit exEntries [exPath \<mapsto> exConsumed]) ! i =
             snd (applyPatch (ruleInput i (insertMarker exConsumed))
                    (fst (rules ! i)) (fst (snd (rules ! i))) (snd (snd (rules ! i))))"
      using tc by blast
    then have "results (patchDrizzleKit exEntries [exPath \<mapsto> exConsumed]) ! 4 =
             snd (applyPatch (ruleInput 4 (insertMarker exConsumed))
                    (fst (rules ! 4)) (fst (snd (rules ! 4))) (snd (snd (rules ! 4))))"
      by simp
    then show ?thesis unfolding exConsumed_fifth_input exConsumed_fifth_result .
  qed
  show ?thesis
    using ex_found b exBroken_unmarked s nb ob c exConsumed_unmarked exConsumed_fifth_alone
      exConsumed_fifth_input r4 sc oc fin wc
    by blast
qed

text \<open>
  C10. The critical rules are the three named \<open>safeRegister (disable esbuild)\<close>,
  \<open>config loading (require -> import)\<close> and \<open>schema loading (require -> import)\<close>,
  the rules 12, 13 and 14 of the fifteen. A run that reaches the rules writes
  nothing and ends with \<^verbatim>\<open>Deno.exit(1)\<close> exactly when one of these three is not
  applied; it writes the buffer and returns exactly when all three are applied. The
  results of the other twelve rules, \<open>walkForTsConfig\<close> and \<open>recusivelyResolveSync\<close>
  among them, do not enter.
\<close>

theorem critical_rules_exactly_three:
  assumes "findDrizzleKitBin entries = Some (binPath, version)"
    and "fs binPath = Some content"
    and "\<not> includesStr content PATCH_MARKER"
  shows "criticalPatches = [fst (rules ! 11), fst (rules ! 12), fst (rules ! 13)]
       \<and> fst (rules ! 0) = ''walkForTsConfig'' \<and> fst (rules ! 1) = ''recusivelyResolveSync''
       \<and> map name (results (patchDrizzleKit entries fs)) = map fst rules
       \<and> ((writes (patchDrizzleKit entries fs) = [] \<and> outcome (patchDrizzleKit entries fs) = Exit 1)
            \<longleftrightarrow> \<not> (success (results (patchDrizzleKit entries fs) ! 11)
                    \<and> success (results (patchDrizzleKit entries fs) ! 12)
                    \<and> success (results (patchDrizzleKit entries fs) ! 13)))
       \<and> ((writes (patchDrizzleKit entries fs) =
              [(binPath, fst (applyRules rules (insertMarker content) []))]
            \<and> outcome (patchDrizzleKit entries fs) = Returned)
            \<longleftrightarrow> (success (results (patchDrizzleKit entries fs) ! 11)
                  \<and> success (results (patchDrizzleKit entries fs) ! 12)
                  \<and> success (results (patchDrizzleKit entries fs) ! 13)))"
proof -
  obtain patched rs where ar: "applyRules rules (insertMarker content) [] = (patched, rs)"
    by (cases "applyRules rules (insertMarker content) []") auto
  note pf = patchFile_rules[of fs binPath content patched rs version, OF assms(2) assms(3) ar]
  have run: "patchDrizzleKit entries fs = patchFile binPath version fs"
    using assms(1) by (rule patchDrizzleKit_found)
  have rs: "rs = snd (applyRules rules (insertMarker content) [])" using ar by simp
  have names: "map name rs = map fst rules" unfolding rs by (rule applyRules_names)
  note ci = critical_iff[OF names]
  have crit: "criticalPatches = [fst (rules ! 11), fst (rules ! 12), fst (rules ! 13)]
       \<and> fst (rules ! 0) = ''walkForTsConfig'' \<and> fst (rules ! 1) = ''recusivelyResolveSync''"
    by (simp add: rules_def criticalPatches_def)
  have gate: "((writes (patchFile binPath version fs) = [] \<and> outcome (patchFile binPath version fs) = Exit 1)
            \<longleftrightarrow> \<not> (success (rs ! 11) \<and> success (rs ! 12) \<and> success (rs ! 13)))
       \<and> ((writes (patchFile binPath version fs) = [(binPath, patched)]
            \<and> outcome (patchFile binPath version fs) = Returned)
            \<longleftrightarrow> (success (rs ! 11) \<and> success (rs ! 12) \<and> success (rs ! 13)))"
  proof (cases "filter (\<lambda>r. \<not> success r \<and> name r \<in> set criticalPatches) rs = []")
    case True
    then have "\<not> (\<exists>r \<in> set rs. \<not> success r \<and> name r \<in> set criticalPatches)"
      by (simp add: filter_empty_conv)
    then have "success (rs ! 11) \<and> success (rs ! 12) \<and> success (rs ! 13)"
      using ci by blast
    then show ?thesis using pf(3)[OF True] by simp
  next
    case False
    then have "\<exists>r \<in> set rs. \<not> success r \<and> name r \<in> set criticalPatches"
      by (simp add: filter_empty_conv)
    then have "\<not> (success (rs ! 11) \<and> success (rs ! 12) \<and> success (rs ! 13))"
      using ci by blast
    then show ?thesis using pf(2)[OF False] by simp
  qed
  have p: "patched = fst (applyRules rules (insertMarker content) [])" using ar by simp
  show ?thesis unfolding run pf(1) using crit names gate unfolding p by blast
qed

theorem critical_rules_exactly_three_witness:
  "findDrizzleKitBin exEntries = Some (exPath, ''0.31.8'')
   \<and> [exPath \<mapsto> exBundle] exPath = Some exBundle
   \<and> \<not> includesStr exBundle PATCH_MARKER
   \<and> map success (results (patchDrizzleKit exEntries [exPath \<mapsto> exBundle])) =
       [False, False, False, False, False, False, False, False, False, False, False, True,
        True, True, False]
   \<and> writes (patchDrizzleKit exEntries [exPath \<mapsto> exBundle]) = [(exPath, exPatched)]
   \<and> outcome (patchDrizzleKit exEntries [exPath \<mapsto> exBundle]) = Returned"
proof -
  have a: "[exPath \<mapsto> exBundle] exPath = Some exBundle" by simp
  have s: "map success (results (patchDrizzleKit exEntries [exPath \<mapsto> exBundle])) =
       [False, False, False, False, False, False, False, False, False, False, False, True,
        True, True, False]"
    unfolding exBundle_results exBundle_rules by simp
  have t: "success (results (patchDrizzleKit exEntries [exPath \<mapsto> exBundle]) ! 11)
         \<and> success (results (patchDrizzleKit exEntries [exPath \<mapsto> exBundle]) ! 12)
         \<and> success (results (patchDrizzleKit exEntries [exPath \<mapsto> exBundle]) ! 13)"
    unfolding exBundle_results exBundle_rules by simp
  show ?thesis
    using critical_rules_exactly_three[where entries = exEntries and binPath = exPath
        and fs = "[exPath \<mapsto> exBundle]" and content = exBundle, OF ex_found a exBundle_unmarked] s t ex_found
      exBundle_unmarked
    by (simp add: exBundle_rules)
qed


section \<open>applyPatch\<close>

text \<open>A string pattern is matched literally: escaping and parsing give the literal nodes.\<close>

lemma escape_step:
  "replaceFrom (RegExp [One (OneOf specials)] True False) (Template [CHR 0x5C, CHR ''$'', CHR ''&'']) pre s
     = concat (map escapeChar s)"
proof (induction s arbitrary: pre)
  case Nil
  then show ?case by simp
next
  case (Cons c cs)
  show ?case
  proof (cases "c \<in> set specials")
    case True
    then show ?thesis using Cons.IH by (simp add: escapeChar_def)
  next
    case False
    then show ?thesis using Cons.IH by (simp add: escapeChar_def)
  qed
qed

lemma parse_escaped:
  "parseEscaped (concat (map escapeChar s)) = lit s"
proof (induction s)
  case Nil
  then show ?case by (simp add: lit_def)
next
  case (Cons c cs)
  show ?case
  proof (cases "c \<in> set specials")
    case True
    then show ?thesis using Cons.IH by (simp add: lit_def escapeChar_def)
  next
    case False
    then have nb: "c \<noteq> CHR 0x5C" by (auto simp: specials_def)
    show ?thesis
    proof (cases cs)
      case Nil
      then show ?thesis using False by (simp add: lit_def escapeChar_def)
    next
      case (Cons d ds)
      then show ?thesis using Cons.IH False nb
        by (cases "d \<in> set specials") (simp_all add: lit_def escapeChar_def)
    qed
  qed
qed

lemma literal_regexp: "newGlobalRegExp (escapeRegex str) = literalRegExp str"
  using escape_step[of "[]" str] parse_escaped[of str]
  by (simp add: newGlobalRegExp_def escapeRegex_def replace_def specials_def literalRegExp_def)



text \<open>
  C3, as stated. The claim has every rule replace globally. The pattern of the rule
  \<open>CLI exit handler\<close> has no flag \<^verbatim>\<open>g\<close>: on a text in which it matches twice,
  \<open>applyPatch\<close> replaces the first match only, and the text it carries forward is not
  the text of the global replace.
\<close>

theorem applyPatch_global_counterexample:
  "test cliExit_pattern exTwoRuns
   \<and> success (snd (applyPatch exTwoRuns ''CLI exit handler'' (Pattern cliExit_pattern)
                     (Template cliExit_replacement)))
   \<and> replace exTwoRuns cliExit_global (Template cliExit_replacement) \<noteq> exTwoRuns
   \<and> fst (applyPatch exTwoRuns ''CLI exit handler'' (Pattern cliExit_pattern)
            (Template cliExit_replacement))
       \<noteq> replace exTwoRuns cliExit_global (Template cliExit_replacement)"
  by code_simp

text \<open>
  C3, amended. For every buffer, name, pattern and replacement: when the pattern has
  no match, the result is \<open>Pattern not found\<close> and the buffer is returned as it was;
  when it matches and \<^verbatim>\<open>replace\<close> gives the same text, the result is
  \<open>Replacement had no effect\<close> and the buffer is returned as it was; otherwise the
  result is applied and the replaced text is returned. \<^verbatim>\<open>replace\<close> replaces every
  match when the pattern is global, as a string pattern and the patterns of the first
  fourteen rules are, and the first match only for the pattern of the last rule.
\<close>

theorem applyPatch_trichotomy:
  "(let pattern = (case sp of Pattern r \<Rightarrow> r | Literal str \<Rightarrow> literalRegExp str)
    in (\<not> test pattern content \<longrightarrow>
          applyPatch content nm sp rp =
            (content, \<lparr>name = nm, success = False, error = Some ''Pattern not found''\<rparr>))
     \<and> (test pattern content \<and> replace content pattern rp = content \<longrightarrow>
          applyPatch content nm sp rp =
            (content,
             \<lparr>name = nm, success = False, error = Some ''Replacement had no effect''\<rparr>))
     \<and> (test pattern content \<and> replace content pattern rp \<noteq> content \<longrightarrow>
          applyPatch content nm sp rp =
            (replace content pattern rp, \<lparr>name = nm, success = True, error = None\<rparr>)))
   \<and> ''Pattern not found'' \<noteq> ''Replacement had no effect''
   \<and> global (literalRegExp str')
   \<and> map (\<lambda>(nm, sp, rp). case sp of Pattern r \<Rightarrow> global r | Literal str \<Rightarrow> True) rules
       = replicate 14 True @ [False]"
proof -
  have flags: "map (\<lambda>(nm, sp, rp). case sp of Pattern r \<Rightarrow> global r | Literal str \<Rightarrow> True) rules
       = replicate 14 True @ [False]"
    by code_simp
  have tri: "(let pattern = (case sp of Pattern r \<Rightarrow> r | Literal str \<Rightarrow> literalRegExp str)
    in (\<not> test pattern content \<longrightarrow>
          applyPatch content nm sp rp =
            (content, \<lparr>name = nm, success = False, error = Some ''Pattern not found''\<rparr>))
     \<and> (test pattern content \<and> replace content pattern rp = content \<longrightarrow>
          applyPatch content nm sp rp =
            (content,
             \<lparr>name = nm, success = False, error = Some ''Replacement had no effect''\<rparr>))
     \<and> (test pattern content \<and> replace content pattern rp \<noteq> content \<longrightarrow>
          applyPatch content nm sp rp =
            (replace content pattern rp, \<lparr>name = nm, success = True, error = None\<rparr>)))"
    by (cases sp) (simp_all add: applyPatch_def Let_def literal_regexp)
  show ?thesis using flags tri by (simp add: literalRegExp_def)
qed

theorem applyPatch_trichotomy_witness:
  "test (literalRegExp ''a.b'') ''x a.b y''
   \<and> replace ''x a.b y'' (literalRegExp ''a.b'') (Template ''a.b'') = ''x a.b y''
   \<and> applyPatch ''x a.b y'' ''n'' (Literal ''a.b'') (Template ''a.b'') =
        (''x a.b y'', \<lparr>name = ''n'', success = False, error = Some ''Replacement had no effect''\<rparr>)
   \<and> replace ''x a.b y'' (literalRegExp ''a.b'') (Template ''a.c'') \<noteq> ''x a.b y''
   \<and> applyPatch ''x a.b y'' ''n'' (Literal ''a.b'') (Template ''a.c'') =
        (''x a.c y'', \<lparr>name = ''n'', success = True, error = None\<rparr>)
   \<and> \<not> test (literalRegExp ''a+b'') ''x a.b y''
   \<and> applyPatch ''x a.b y'' ''n'' (Literal ''a+b'') (Template ''a.c'') =
        (''x a.b y'', \<lparr>name = ''n'', success = False, error = Some ''Pattern not found''\<rparr>)"
proof -
  have t: "test (literalRegExp ''a.b'') ''x a.b y''" by code_simp
  have r1: "replace ''x a.b y'' (literalRegExp ''a.b'') (Template ''a.b'') = ''x a.b y''"
    by code_simp
  have r2: "replace ''x a.b y'' (literalRegExp ''a.b'') (Template ''a.c'') = ''x a.c y''"
    by code_simp
  have n: "\<not> test (literalRegExp ''a+b'') ''x a.b y''" by code_simp
  show ?thesis
    using applyPatch_trichotomy[of "Literal ''a.b''" "''x a.b y''" "''n''" "Template ''a.b''"]
      applyPatch_trichotomy[of "Literal ''a.b''" "''x a.b y''" "''n''" "Template ''a.c''"]
      applyPatch_trichotomy[of "Literal ''a+b''" "''x a.b y''" "''n''" "Template ''a.c''"]
      t r1 r2 n
    by (simp add: Let_def)
qed

section \<open>The version\<close>

lemma one_sound:
  assumes "matchHere ml prev (One a # ns) acc g caps s = Some r"
  shows "\<exists>c t. s = c # t \<and> accepts a c \<and> matchHere ml prev ns (c # acc) g caps t = Some r"
proof (cases s)
  case Nil
  then show ?thesis using assms by simp
next
  case (Cons c cs)
  have "accepts a c" using assms Cons by (cases "accepts a c") simp_all
  then show ?thesis using assms Cons by simp
qed

lemma version_match_shape:
  assumes "matchHere ml prev (source versionPattern) [] 0 [] s = Some r"
  shows "\<exists>x y z t. s = ''drizzle-kit@'' @ x @ ''.'' @ y @ ''.'' @ z @ t
           \<and> x \<noteq> [] \<and> y \<noteq> [] \<and> z \<noteq> [] \<and> (\<forall>c \<in> set (x @ y @ z). isDigit c)"
proof -
  have src: "source versionPattern =
      lit ''drizzle-kit@'' @ (Open # Plus Digit # One (Chr CHR ''.'') # Plus Digit
        # One (Chr CHR ''.'') # Plus Digit # [Close])"
    by (simp add: versionPattern_def lit_def)
  from assms obtain s1 g1 where s1: "s = ''drizzle-kit@'' @ s1"
    and m1: "matchHere ml prev (Plus Digit # One (Chr CHR ''.'') # Plus Digit
        # One (Chr CHR ''.'') # Plus Digit # [Close]) (rev ''drizzle-kit@'') g1 [] s1 = Some r"
    unfolding src matchHere_lit by (auto simp: startsWith_iff split: if_splits)
  from plus_sound[OF m1] obtain x s2 where x: "s1 = x @ s2" "x \<noteq> []" "\<forall>c \<in> set x. accepts Digit c"
    and m2: "matchHere ml prev (One (Chr CHR ''.'') # Plus Digit
        # One (Chr CHR ''.'') # Plus Digit # [Close]) (rev x @ rev ''drizzle-kit@'') g1 [] s2 = Some r"
    by blast
  from one_sound[OF m2] obtain s3 where s3: "s2 = CHR ''.'' # s3"
    and m3: "matchHere ml prev (Plus Digit # One (Chr CHR ''.'') # Plus Digit # [Close])
        (CHR ''.'' # rev x @ rev ''drizzle-kit@'') g1 [] s3 = Some r"
    by auto
  from plus_sound[OF m3] obtain y s4 where y: "s3 = y @ s4" "y \<noteq> []" "\<forall>c \<in> set y. accepts Digit c"
    and m4: "matchHere ml prev (One (Chr CHR ''.'') # Plus Digit # [Close])
        (rev y @ CHR ''.'' # rev x @ rev ''drizzle-kit@'') g1 [] s4 = Some r"
    by blast
  from one_sound[OF m4] obtain s5 where s5: "s4 = CHR ''.'' # s5"
    and m5: "matchHere ml prev (Plus Digit # [Close])
        (CHR ''.'' # rev y @ CHR ''.'' # rev x @ rev ''drizzle-kit@'') g1 [] s5 = Some r"
    by auto
  from plus_sound[OF m5] obtain z s6 where z: "s5 = z @ s6" "z \<noteq> []" "\<forall>c \<in> set z. accepts Digit c"
    by blast
  show ?thesis
    using x y z unfolding s1 s3 s5
    by - (rule exI[of _ x], rule exI[of _ y], rule exI[of _ z], rule exI[of _ s6], auto)
qed

lemma extractVersion_unknown:
  assumes "\<not> hasAtVersion p"
  shows "extractVersion p = ''unknown''"
proof (cases "exec versionPattern p")
  case None
  then show ?thesis by (simp add: extractVersion_def)
next
  case (Some m)
  obtain pre acc caps where m: "m = (pre, acc, caps)" by (cases m) auto
  from execFrom_sound[of versionPattern "[]" p pre acc caps] Some obtain u v where
    uv: "p = u @ v" and mh: "matchHere (multiline versionPattern) (prevOf pre) (source versionPattern) [] 0 [] v = Some (acc, caps)"
    unfolding exec_def m by blast
  from version_match_shape[OF mh] obtain x y z t where
    v: "v = ''drizzle-kit@'' @ x @ ''.'' @ y @ ''.'' @ z @ t"
    and d: "x \<noteq> []" "y \<noteq> []" "z \<noteq> []" "\<forall>c \<in> set (x @ y @ z). isDigit c" by blast
  have "p = (u @ ''drizzle-kit'') @ ''@'' @ x @ ''.'' @ y @ ''.'' @ z @ t"
    unfolding uv v by simp
  then have "hasAtVersion p" unfolding hasAtVersion_def using d by blast
  then show ?thesis using assms by simp
qed

lemma version_no_early_match:
  assumes "\<not> includesStr (u @ v) ''drizzle-kit@''" and "v \<noteq> []"
  shows "matchHere ml prev (source versionPattern) [] 0 [] (v @ ''drizzle-kit@0.31.8'' @ r) = None"
proof -
  have "\<not> startsWith (v @ ''drizzle-kit@0.31.8'' @ r) ''drizzle-kit@''"
  proof
    assume "startsWith (v @ ''drizzle-kit@0.31.8'' @ r) ''drizzle-kit@''"
    then obtain t where t: "v @ ''drizzle-kit@0.31.8'' @ r = ''drizzle-kit@'' @ t"
      by (auto simp: startsWith_iff)
    then consider us where "v = ''drizzle-kit@'' @ us"
      | us where "v @ us = ''drizzle-kit@''" "''drizzle-kit@0.31.8'' @ r = us @ t"
      unfolding append_eq_append_conv2 by blast
    then show False
    proof cases
      case 1
      then have "u @ v = u @ ''drizzle-kit@'' @ us" by simp
      then have "includesStr (u @ v) ''drizzle-kit@''" unfolding includesStr_iff by blast
      then show ?thesis using assms(1) by simp
    next
      case 2
      show ?thesis
      proof (cases us)
        case Nil
        then have "u @ v = u @ ''drizzle-kit@'' @ []" using 2(1) by simp
        then have "includesStr (u @ v) ''drizzle-kit@''" unfolding includesStr_iff by blast
        then show ?thesis using assms(1) by simp
      next
        case (Cons x us')
        then have x: "x = CHR ''d''" using 2(2) by simp
        obtain v0 v' where v: "v = v0 # v'" using assms(2) by (cases v) auto
        have "tl ''drizzle-kit@'' = v' @ CHR ''d'' # us'" using 2(1) unfolding v Cons x
          by (metis append_Cons list.sel(3))
        then have "CHR ''d'' \<in> set (tl ''drizzle-kit@'')" by simp
        then show ?thesis by simp
      qed
    qed
  qed
  then show ?thesis
    unfolding versionPattern_def RegExp.sel by (simp only: matchHere_lit if_False)
qed

lemma version_match_here:
  assumes "r = [] \<or> \<not> isDigit (hd r)"
  shows "matchHere False prev (source versionPattern) [] 0 [] (''drizzle-kit@0.31.8'' @ r)
           = Some (rev ''drizzle-kit@0.31.8'', [''0.31.8''])"
proof (cases r)
  case Nil
  then show ?thesis by (simp add: versionPattern_def lit_def isDigit_def)
next
  case (Cons c cs)
  then have "\<not> isDigit c" using assms by simp
  then show ?thesis using Cons by (simp add: versionPattern_def lit_def isDigit_def)
qed

lemma extractVersion_first:
  assumes "\<not> includesStr p ''drizzle-kit@''" and "r = [] \<or> \<not> isDigit (hd r)"
  shows "extractVersion (p @ ''drizzle-kit@0.31.8'' @ r) = ''0.31.8''"
proof -
  have skip: "execFrom versionPattern [] (p @ ''drizzle-kit@0.31.8'' @ r)
      = execFrom versionPattern (rev p @ []) (''drizzle-kit@0.31.8'' @ r)"
  proof (rule execFrom_skip)
    fix u v assume "p = u @ v" "v \<noteq> []"
    then show "matchHere (multiline versionPattern) (prevOf (rev u @ [])) (source versionPattern) [] 0 []
        (v @ ''drizzle-kit@0.31.8'' @ r) = None"
      using version_no_early_match[of u v] assms(1) by simp
  qed
  have ml: "multiline versionPattern = False" by (simp add: versionPattern_def)
  have "execFrom versionPattern (rev p) (''drizzle-kit@0.31.8'' @ r)
      = Some (rev p, rev ''drizzle-kit@0.31.8'', [''0.31.8''])"
    using version_match_here[OF assms(2), of "prevOf (rev p)"] by (simp add: ml)
  then show ?thesis using skip by (simp add: extractVersion_def exec_def)
qed

lemma hasAtVersion_at: "hasAtVersion p \<Longrightarrow> CHR ''@'' \<in> set p"
  by (auto simp: hasAtVersion_def)

lemma version_independent:
  "outcome (patchFile binPath version fs) = outcome (patchFile binPath version' fs)
   \<and> results (patchFile binPath version fs) = results (patchFile binPath version' fs)
   \<and> writes (patchFile binPath version fs) = writes (patchFile binPath version' fs)"
proof (cases "fs binPath")
  case None
  then show ?thesis by (simp add: patchFile_def Let_def)
next
  case (Some content)
  show ?thesis
  proof (cases "includesStr content PATCH_MARKER")
    case True
    then show ?thesis using Some by (simp add: patchFile_def Let_def)
  next
    case False
    obtain patched rs where ar: "applyRules rules (insertMarker content) [] = (patched, rs)"
      by (cases "applyRules rules (insertMarker content) []") auto
    show ?thesis using Some False ar by (simp add: patchFile_def Let_def)
  qed
qed

lemma console_version:
  "console (patchFile binPath version fs) =
     (Log, Found version binPath)
       # (if version \<notin> set SUPPORTED_VERSIONS \<and> version \<noteq> ''unknown''
          then [(Warn, MayNotBeCompatible version), (Warn, AttemptingAnyway)] else [])
       @ tl (console (patchFile binPath ''0.31.8'' fs))"
proof (cases "fs binPath")
  case None
  then show ?thesis by (simp add: patchFile_def Let_def SUPPORTED_VERSIONS_def)
next
  case (Some content)
  show ?thesis
  proof (cases "includesStr content PATCH_MARKER")
    case True
    then show ?thesis using Some by (simp add: patchFile_def Let_def SUPPORTED_VERSIONS_def)
  next
    case False
    obtain patched rs where ar: "applyRules rules (insertMarker content) [] = (patched, rs)"
      by (cases "applyRules rules (insertMarker content) []") auto
    show ?thesis using Some False ar by (simp add: patchFile_def Let_def SUPPORTED_VERSIONS_def)
  qed
qed

lemma firstFile_version:
  "firstFile es = Some (p, v) \<Longrightarrow> v = extractVersion p"
  by (induction es) (auto split: if_splits)


lemma console_base_no_warn:
  "Warn \<notin> fst ` set (console (patchFile binPath ''0.31.8'' fs))"
proof -
  have pr: "\<And>rs. Warn \<notin> fst ` set (map printResult rs)"
    by (auto simp: printResult_def)
  show ?thesis
  proof (cases "fs binPath")
    case None
    then show ?thesis by (simp add: patchFile_def Let_def SUPPORTED_VERSIONS_def)
  next
    case (Some content)
    show ?thesis
    proof (cases "includesStr content PATCH_MARKER")
      case True
      then show ?thesis using Some by (simp add: patchFile_def Let_def SUPPORTED_VERSIONS_def)
    next
      case False
      obtain patched rs where ar: "applyRules rules (insertMarker content) [] = (patched, rs)"
        by (cases "applyRules rules (insertMarker content) []") auto
      have old: "Warn \<notin> fst ` set (case exec oldPatchPattern content of
                                 Some (pre, acc, caps) \<Rightarrow> [(Log, FoundOlderPatch (caps ! 0))]
                               | None \<Rightarrow> [])"
        by (auto split: option.splits)
      show ?thesis using Some False ar pr[of rs] old
        by (simp add: patchFile_def Let_def image_Un SUPPORTED_VERSIONS_def)
    qed
  qed
qed

lemma console_warn:
  "Warn \<in> fst ` set (console (patchFile binPath version fs)) \<longleftrightarrow>
     version \<notin> set SUPPORTED_VERSIONS \<and> version \<noteq> ''unknown''"
proof -
  have base: "Warn \<notin> fst ` set (tl (console (patchFile binPath ''0.31.8'' fs)))"
    using console_base_no_warn[of binPath fs]
    by (cases "console (patchFile binPath ''0.31.8'' fs)") auto
  show ?thesis
  proof (cases "version \<notin> set SUPPORTED_VERSIONS \<and> version \<noteq> ''unknown''")
    case True
    have "console (patchFile binPath version fs) =
        (Log, Found version binPath) # [(Warn, MayNotBeCompatible version), (Warn, AttemptingAnyway)]
          @ tl (console (patchFile binPath ''0.31.8'' fs))"
      using True by (subst console_version) simp
    then show ?thesis using True by simp
  next
    case False
    have "console (patchFile binPath version fs) =
        (Log, Found version binPath) # tl (console (patchFile binPath ''0.31.8'' fs))"
      using False by (subst console_version) auto
    then show ?thesis using False base by simp
  qed
qed

lemma ex_plain_found: "findDrizzleKitBin exPlainEntries = Some (exPlainPath, ''unknown'')"
  by code_simp

lemma ex_future_found: "findDrizzleKitBin exFutureEntries = Some (exFuturePath, ''9.9.9'')"
  by code_simp

text \<open>
  C7, as stated. A path can hold the segment \<^verbatim>\<open>drizzle-kit@0.31.8\<close> after an
  earlier \<^verbatim>\<open>drizzle-kit@0.30.6\<close>; the version is taken from the first match.
\<close>

theorem version_extraction_counterexample:
  "includesStr exNestedPath ''/drizzle-kit@0.31.8/''
   \<and> findDrizzleKitBin exNestedEntries = Some (exNestedPath, ''0.30.6'')
   \<and> extractVersion exNestedPath \<noteq> ''0.31.8''"
  by code_simp

text \<open>
  C7, amended. When the first \<^verbatim>\<open>drizzle-kit@\<close> of the path is that of
  \<^verbatim>\<open>drizzle-kit@0.31.8\<close> and no digit follows the segment, the version is exactly
  \<open>0.31.8\<close>. A path with no \<^verbatim>\<open>@X.Y.Z\<close> gives \<open>unknown\<close>. The version of a run is
  the one extracted from the path of the file found, and a run with the version
  \<open>unknown\<close> goes on as a run with a supported version does: same results, same
  writes, same outcome, and the same messages after the first.
\<close>

theorem version_extraction:
  "(\<not> includesStr p ''drizzle-kit@'' \<and> (r = [] \<or> \<not> isDigit (hd r)) \<longrightarrow>
      extractVersion (p @ ''drizzle-kit@0.31.8'' @ r) = ''0.31.8'')
   \<and> (\<not> hasAtVersion q \<longrightarrow> extractVersion q = ''unknown'')
   \<and> (findDrizzleKitBin entries = Some (binPath, version) \<longrightarrow> version = extractVersion binPath)
   \<and> (findDrizzleKitBin entries = Some (binPath, ''unknown'') \<longrightarrow>
        console (patchDrizzleKit entries fs) =
          (Log, Found ''unknown'' binPath) # tl (console (patchFile binPath ''0.31.8'' fs))
        \<and> outcome (patchDrizzleKit entries fs) = outcome (patchFile binPath ''0.31.8'' fs)
        \<and> results (patchDrizzleKit entries fs) = results (patchFile binPath ''0.31.8'' fs)
        \<and> writes (patchDrizzleKit entries fs) = writes (patchFile binPath ''0.31.8'' fs))"
proof -
  have a: "\<not> includesStr p ''drizzle-kit@'' \<and> (r = [] \<or> \<not> isDigit (hd r)) \<longrightarrow>
      extractVersion (p @ ''drizzle-kit@0.31.8'' @ r) = ''0.31.8''"
    using extractVersion_first[of p r] by blast
  have b: "\<not> hasAtVersion q \<longrightarrow> extractVersion q = ''unknown''"
    using extractVersion_unknown[of q] by blast
  have c: "findDrizzleKitBin entries = Some (binPath, version) \<longrightarrow> version = extractVersion binPath"
    using firstFile_version[of "walk entries" binPath version]
    by (simp add: findDrizzleKitBin_def)
  have d: "findDrizzleKitBin entries = Some (binPath, ''unknown'') \<longrightarrow>
        console (patchDrizzleKit entries fs) =
          (Log, Found ''unknown'' binPath) # tl (console (patchFile binPath ''0.31.8'' fs))
        \<and> outcome (patchDrizzleKit entries fs) = outcome (patchFile binPath ''0.31.8'' fs)
        \<and> results (patchDrizzleKit entries fs) = results (patchFile binPath ''0.31.8'' fs)
        \<and> writes (patchDrizzleKit entries fs) = writes (patchFile binPath ''0.31.8'' fs)"
  proof
    assume f: "findDrizzleKitBin entries = Some (binPath, ''unknown'')"
    have run: "patchDrizzleKit entries fs = patchFile binPath ''unknown'' fs"
      using f by (rule patchDrizzleKit_found)
    have "console (patchFile binPath ''unknown'' fs) =
        (Log, Found ''unknown'' binPath) # tl (console (patchFile binPath ''0.31.8'' fs))"
      by (subst console_version) simp
    then show "console (patchDrizzleKit entries fs) =
          (Log, Found ''unknown'' binPath) # tl (console (patchFile binPath ''0.31.8'' fs))
        \<and> outcome (patchDrizzleKit entries fs) = outcome (patchFile binPath ''0.31.8'' fs)
        \<and> results (patchDrizzleKit entries fs) = results (patchFile binPath ''0.31.8'' fs)
        \<and> writes (patchDrizzleKit entries fs) = writes (patchFile binPath ''0.31.8'' fs)"
      unfolding run using version_independent[of binPath "''unknown''" fs "''0.31.8''"] by simp
  qed
  show ?thesis using a b c d by blast
qed


theorem version_extraction_witness:
  "\<not> includesStr ''node_modules/.deno/'' ''drizzle-kit@''
   \<and> \<not> isDigit (hd ''/node_modules/drizzle-kit/bin.cjs'')
   \<and> extractVersion exPath = ''0.31.8''
   \<and> \<not> hasAtVersion exPlainPath
   \<and> extractVersion exPlainPath = ''unknown''
   \<and> findDrizzleKitBin exPlainEntries = Some (exPlainPath, ''unknown'')
   \<and> outcome (patchDrizzleKit exPlainEntries [exPlainPath \<mapsto> exBundle]) = Returned
   \<and> writes (patchDrizzleKit exPlainEntries [exPlainPath \<mapsto> exBundle]) = [(exPlainPath, exPatched)]"
proof -
  have h1: "\<not> includesStr ''node_modules/.deno/'' ''drizzle-kit@''" by code_simp
  have h2: "\<not> isDigit (hd ''/node_modules/drizzle-kit/bin.cjs'')" by code_simp
  have h3: "\<not> hasAtVersion exPlainPath"
  proof
    assume "hasAtVersion exPlainPath"
    then have "CHR ''@'' \<in> set exPlainPath" by (rule hasAtVersion_at)
    then show False by (simp add: exPlainPath_def)
  qed
  have e: "exPath = ''node_modules/.deno/'' @ ''drizzle-kit@0.31.8'' @ ''/node_modules/drizzle-kit/bin.cjs''"
    by (simp add: exPath_def)
  have f: "[exPlainPath \<mapsto> exBundle] exPlainPath = Some exBundle" by simp
  have nc: "filter (\<lambda>r. \<not> success r \<and> name r \<in> set criticalPatches)
              (snd (applyRules rules (insertMarker exBundle) [])) = []"
    unfolding exBundle_rules
    by (simp add: criticalPatches_def configLoading_name_def schemaLoading_name_def)
  have base: "writes (patchFile exPlainPath ''0.31.8'' [exPlainPath \<mapsto> exBundle])
                = [(exPlainPath, exPatched)]
            \<and> outcome (patchFile exPlainPath ''0.31.8'' [exPlainPath \<mapsto> exBundle]) = Returned"
    using patchFile_rules(3)[of "[exPlainPath \<mapsto> exBundle]" exPlainPath exBundle exPatched
        "snd (applyRules rules (insertMarker exBundle) [])" "''0.31.8''", OF f exBundle_unmarked _ nc]
    by (simp add: exBundle_rules)
  note th = version_extraction[of "''node_modules/.deno/''" "''/node_modules/drizzle-kit/bin.cjs''"
        exPlainPath exPlainEntries exPlainPath "''unknown''" "[exPlainPath \<mapsto> exBundle]"]
  have v1: "extractVersion exPath = ''0.31.8''"
    unfolding e using th h1 h2 by blast
  have v2: "extractVersion exPlainPath = ''unknown''"
    using th h3 by blast
  have v3: "outcome (patchDrizzleKit exPlainEntries [exPlainPath \<mapsto> exBundle])
              = outcome (patchFile exPlainPath ''0.31.8'' [exPlainPath \<mapsto> exBundle])
          \<and> writes (patchDrizzleKit exPlainEntries [exPlainPath \<mapsto> exBundle])
              = writes (patchFile exPlainPath ''0.31.8'' [exPlainPath \<mapsto> exBundle])"
    using th ex_plain_found by blast
  show ?thesis
    by (intro conjI h1 h2 v1 h3 v2 ex_plain_found) (simp_all add: v3 base)
qed

theorem version_gate_counterexample:
  "''unknown'' \<notin> set SUPPORTED_VERSIONS
   \<and> findDrizzleKitBin exPlainEntries = Some (exPlainPath, ''unknown'')
   \<and> Warn \<notin> fst ` set (console (patchDrizzleKit exPlainEntries [exPlainPath \<mapsto> exBundle]))"
proof -
  have "patchDrizzleKit exPlainEntries [exPlainPath \<mapsto> exBundle]
          = patchFile exPlainPath ''unknown'' [exPlainPath \<mapsto> exBundle]"
    using ex_plain_found by (rule patchDrizzleKit_found)
  then show ?thesis
    using ex_plain_found console_warn[of exPlainPath "''unknown''" "[exPlainPath \<mapsto> exBundle]"]
    by (simp add: SUPPORTED_VERSIONS_def)
qed

text \<open>
  C8, amended. The version never changes what a run does to the file: results,
  writes and outcome are those of a run with a supported version. It changes the
  messages only: after the first message come two warnings (on the stream of
  warnings, not of errors) when the version is neither in \<open>SUPPORTED_VERSIONS\<close> nor
  \<open>unknown\<close>, and nothing otherwise.
\<close>

theorem version_gate:
  "(findDrizzleKitBin entries = Some (binPath, version) \<longrightarrow>
      patchDrizzleKit entries fs = patchFile binPath version fs)
   \<and> ''0.31.8'' \<in> set SUPPORTED_VERSIONS
   \<and> outcome (patchFile binPath version fs) = outcome (patchFile binPath ''0.31.8'' fs)
   \<and> results (patchFile binPath version fs) = results (patchFile binPath ''0.31.8'' fs)
   \<and> writes (patchFile binPath version fs) = writes (patchFile binPath ''0.31.8'' fs)
   \<and> console (patchFile binPath version fs) =
       (Log, Found version binPath)
         # (if version \<notin> set SUPPORTED_VERSIONS \<and> version \<noteq> ''unknown''
            then [(Warn, MayNotBeCompatible version), (Warn, AttemptingAnyway)] else [])
         @ tl (console (patchFile binPath ''0.31.8'' fs))
   \<and> (Warn \<in> fst ` set (console (patchFile binPath version fs)) \<longleftrightarrow>
        version \<notin> set SUPPORTED_VERSIONS \<and> version \<noteq> ''unknown'')"
proof -
  have a: "findDrizzleKitBin entries = Some (binPath, version) \<longrightarrow>
      patchDrizzleKit entries fs = patchFile binPath version fs"
    by (simp add: patchDrizzleKit_def)
  have s: "''0.31.8'' \<in> set SUPPORTED_VERSIONS" by (simp add: SUPPORTED_VERSIONS_def)
  show ?thesis
    using a s version_independent[of binPath version fs "''0.31.8''"]
      console_version[of binPath version fs] console_warn[of binPath version fs]
    by blast
qed

theorem version_gate_witness:
  "findDrizzleKitBin exFutureEntries = Some (exFuturePath, ''9.9.9'')
   \<and> ''9.9.9'' \<notin> set SUPPORTED_VERSIONS
   \<and> take 3 (console (patchDrizzleKit exFutureEntries [exFuturePath \<mapsto> exBundle])) =
       [(Log, Found ''9.9.9'' exFuturePath), (Warn, MayNotBeCompatible ''9.9.9''),
        (Warn, AttemptingAnyway)]
   \<and> outcome (patchDrizzleKit exFutureEntries [exFuturePath \<mapsto> exBundle]) = Returned
   \<and> writes (patchDrizzleKit exFutureEntries [exFuturePath \<mapsto> exBundle]) =
       [(exFuturePath, exPatched)]"
proof -
  have f: "[exFuturePath \<mapsto> exBundle] exFuturePath = Some exBundle" by simp
  have nc: "filter (\<lambda>r. \<not> success r \<and> name r \<in> set criticalPatches)
              (snd (applyRules rules (insertMarker exBundle) [])) = []"
    unfolding exBundle_rules
    by (simp add: criticalPatches_def configLoading_name_def schemaLoading_name_def)
  have base: "writes (patchFile exFuturePath ''0.31.8'' [exFuturePath \<mapsto> exBundle])
                = [(exFuturePath, exPatched)]
            \<and> outcome (patchFile exFuturePath ''0.31.8'' [exFuturePath \<mapsto> exBundle]) = Returned"
    using patchFile_rules(3)[of "[exFuturePath \<mapsto> exBundle]" exFuturePath exBundle exPatched
        "snd (applyRules rules (insertMarker exBundle) [])" "''0.31.8''", OF f exBundle_unmarked _ nc]
    by (simp add: exBundle_rules)
  have v: "''9.9.9'' \<notin> set SUPPORTED_VERSIONS" by (simp add: SUPPORTED_VERSIONS_def)
  show ?thesis
    using version_gate[of exFutureEntries exFuturePath "''9.9.9''" "[exFuturePath \<mapsto> exBundle]"]
      ex_future_found base v
    by simp
qed



section \<open>The marker line and the rules\<close>


lemma applyPatch_prefix:
  assumes "noMatchIn r [] p x"
  shows "\<exists>x'. fst (applyPatch (p @ x) nm (Pattern r) rp) = p @ x'"
proof -
  have "replace (p @ x) r rp = p @ replaceFrom r rp (rev p) x"
    using replaceFrom_skip[OF assms, of rp] by (simp add: replace_def)
  then show ?thesis by (auto simp: applyPatch_def Let_def)
qed

lemma applyRules_prefix:
  assumes "\<And>x. \<forall>(nm, sp, rp) \<in> set rl. \<exists>r. sp = Pattern r \<and> noMatchIn r [] p x"
  shows "\<exists>x'. fst (applyRules rl (p @ x) []) = p @ x'"
  using assms
proof (induction rl arbitrary: x)
  case Nil
  then show ?case by simp
next
  case (Cons a rl)
  obtain nm sp rp where a: "a = (nm, sp, rp)" by (cases a) auto
  from Cons.prems[of x] a obtain r where r: "sp = Pattern r" "noMatchIn r [] p x" by auto
  from applyPatch_prefix[of r p x nm rp] r(2) obtain x1 where
    x1: "fst (applyPatch (p @ x) nm (Pattern r) rp) = p @ x1" by blast
  have "\<And>x. \<forall>(nm, sp, rp) \<in> set rl. \<exists>r. sp = Pattern r \<and> noMatchIn r [] p x"
    using Cons.prems by simp
  from Cons.IH[OF this, of x1] show ?case unfolding a r(1) applyRules_Cons x1 by simp
qed

lemma rules_keep_marker_line:
  "\<forall>(nm, sp, rp) \<in> set rules. \<exists>r. sp = Pattern r \<and> noMatchIn r [] markerLine x"
  by (simp add: rules_def walkForTsConfig_marker recusivelyResolveSync_marker supportsColor_marker supportsColor2_marker bufferutil_marker dotenvOptions_marker dotenvConfig_marker deferHomedir_marker deferTmpdir_marker lazyHomedir_marker lazyTmpdir_marker safeRegister_marker configLoading_marker schemaLoading_marker cliExit_marker)

lemma rules_keep_first_lines:
  assumes "CHR ''('' \<notin> set l" and "CHR ''@'' \<notin> set l"
  shows "\<forall>(nm, sp, rp) \<in> set rules. \<exists>r. sp = Pattern r \<and> noMatchIn r [] (l @ afterLine) x"
  using assms by (simp add: rules_def noMatchIn_append walkForTsConfig_marker recusivelyResolveSync_marker supportsColor_marker supportsColor2_marker bufferutil_marker dotenvOptions_marker dotenvConfig_marker deferHomedir_marker deferTmpdir_marker lazyHomedir_marker lazyTmpdir_marker safeRegister_marker configLoading_marker schemaLoading_marker cliExit_marker walkForTsConfig_line recusivelyResolveSync_line supportsColor_line supportsColor2_line bufferutil_line dotenvOptions_line dotenvConfig_line deferHomedir_line deferTmpdir_line lazyHomedir_line lazyTmpdir_line safeRegister_line configLoading_line schemaLoading_line cliExit_line)

lemma indexOf_notin: "c \<notin> set s \<Longrightarrow> indexOf s c = -1"
  by (induction s) (auto simp: Let_def)

lemma indexOf_in: "c \<in> set s \<Longrightarrow> indexOf s c = int (length (takeWhile (\<lambda>d. d \<noteq> c) s))"
proof (induction s)
  case Nil
  then show ?case by simp
next
  case (Cons d s)
  show ?case
  proof (cases "d = c")
    case True
    then show ?thesis by simp
  next
    case False
    then have "c \<in> set s" using Cons.prems by simp
    from Cons.IH[OF this] show ?thesis using False by (simp add: Let_def)
  qed
qed

lemma firstLine_split:
  "CHR ''\<newline>'' \<in> set s \<Longrightarrow>
     s = firstLine s @ CHR ''\<newline>'' # drop (length (firstLine s) + 1) s"
proof (induction s)
  case Nil
  then show ?case by simp
next
  case (Cons d s)
  show ?case
  proof (cases "d = CHR ''\<newline>''")
    case True
    then show ?thesis by (simp add: firstLine_def)
  next
    case False
    then have "CHR ''\<newline>'' \<in> set s" using Cons.prems by simp
    from Cons.IH[OF this] show ?thesis using False by (simp add: firstLine_def)
  qed
qed

lemma insertMarker_shape:
  "insertMarker content =
     (if startsWith content ''#!'' \<and> CHR ''\<newline>'' \<in> set content
      then firstLine content @ afterLine @ drop (length (firstLine content) + 1) content
      else markerLine @ content)"
proof (cases "startsWith content ''#!''")
  case False
  then show ?thesis by (simp add: insertMarker_def markerLine_def)
next
  case True
  show ?thesis
  proof (cases "CHR ''\<newline>'' \<in> set content")
    case False
    then show ?thesis using True
      by (simp add: insertMarker_def markerLine_def indexOf_notin slice_def sliceFrom_def)
  next
    case nl: True
    have i: "indexOf content CHR ''\<newline>'' = int (length (firstLine content))"
      using indexOf_in[OF nl] by (simp add: firstLine_def)
    have t: "take (Suc (length (firstLine content))) content = firstLine content @ ''\<newline>''"
      using firstLine_split[OF nl]
      by (metis Suc_eq_plus1 append.assoc append_Cons append_Nil append_eq_conv_conj length_append_singleton)
    show ?thesis using True nl
      by (simp add: insertMarker_def Let_def i slice_def sliceFrom_def t afterLine_def
          markerLine_def nat_add_distrib)
  qed
qed

lemma insertMarker_prefix: "\<exists>x. insertMarker content = markedPrefix content @ x"
  by (simp add: insertMarker_shape markedPrefix_def)

lemma rules_keep_marked_prefix:
  assumes "plainShebang content"
  shows "\<forall>(nm, sp, rp) \<in> set rules. \<exists>r. sp = Pattern r \<and> noMatchIn r [] (markedPrefix content) x"
proof (cases "startsWith content ''#!'' \<and> CHR ''\<newline>'' \<in> set content")
  case True
  then have "CHR ''('' \<notin> set (firstLine content)" "CHR ''@'' \<notin> set (firstLine content)"
    using assms by (auto simp: plainShebang_def)
  from rules_keep_first_lines[OF this] show ?thesis using True by (simp add: markedPrefix_def)
next
  case False
  then have mp: "markedPrefix content = markerLine"
    unfolding markedPrefix_def by (rule if_not_P)
  show ?thesis unfolding mp by (rule rules_keep_marker_line)
qed

lemma patched_keeps_marker:
  assumes "plainShebang content"
  shows "\<exists>x. fst (applyRules rules (insertMarker content) []) = markedPrefix content @ x"
proof -
  obtain x0 where x0: "insertMarker content = markedPrefix content @ x0"
    using insertMarker_prefix by blast
  show ?thesis unfolding x0
    by (rule applyRules_prefix) (rule rules_keep_marked_prefix[OF assms])
qed

lemma markedPrefix_marker: "\<exists>u. markedPrefix content = u @ PATCH_MARKER @ ''\<newline>''"
proof (cases "startsWith content ''#!'' \<and> CHR ''\<newline>'' \<in> set content")
  case True
  then have "markedPrefix content = (firstLine content @ ''\<newline>'') @ PATCH_MARKER @ ''\<newline>''"
    by (simp add: markedPrefix_def afterLine_def markerLine_def)
  then show ?thesis by blast
next
  case False
  then have mp: "markedPrefix content = markerLine"
    unfolding markedPrefix_def by (rule if_not_P)
  have "markedPrefix content = [] @ PATCH_MARKER @ ''\<newline>''"
    unfolding mp by (simp add: markerLine_def)
  then show ?thesis by blast
qed

lemma patched_includes_marker:
  assumes "plainShebang content"
  shows "includesStr (fst (applyRules rules (insertMarker content) [])) PATCH_MARKER"
proof -
  from patched_keeps_marker[OF assms] obtain x where
    x: "fst (applyRules rules (insertMarker content) []) = markedPrefix content @ x" by blast
  from markedPrefix_marker obtain u where u: "markedPrefix content = u @ PATCH_MARKER @ ''\<newline>''"
    by blast
  have "fst (applyRules rules (insertMarker content) []) = u @ PATCH_MARKER @ (''\<newline>'' @ x)"
    unfolding x u by simp
  then show ?thesis unfolding includesStr_iff by blast
qed



lemma occurrences_zero: "\<not> includesStr s sub \<Longrightarrow> occurrences s sub = 0"
  by (induction s) auto

lemma startsWith_append_cases:
  assumes "startsWith (v @ w) S"
  shows "startsWith v S \<or> set v \<subseteq> set S"
proof -
  from assms obtain t where "v @ w = S @ t" by (auto simp: startsWith_iff)
  then consider us where "v = S @ us" | us where "v @ us = S"
    unfolding append_eq_append_conv2 by blast
  then show ?thesis
  proof cases
    case 1
    then show ?thesis by (simp add: startsWith_iff)
  next
    case 2
    then show ?thesis by auto
  qed
qed

lemma occurrences_skip_line:
  assumes "\<not> includesStr (l @ ''\<newline>'') sub" and "CHR ''\<newline>'' \<notin> set sub"
  shows "occurrences (l @ CHR ''\<newline>'' # w) sub = occurrences w sub"
  using assms(1)
proof (induction l)
  case Nil
  have "\<not> startsWith (CHR ''\<newline>'' # w) sub"
  proof
    assume "startsWith (CHR ''\<newline>'' # w) sub"
    then have "startsWith (''\<newline>'' @ w) sub" by simp
    from startsWith_append_cases[OF this] show False using Nil assms(2) by auto
  qed
  then show ?case by simp
next
  case (Cons d l)
  have ni: "\<not> includesStr (l @ ''\<newline>'') sub" using Cons.prems by simp
  have "\<not> startsWith ((d # l) @ CHR ''\<newline>'' # w) sub"
  proof
    assume "startsWith ((d # l) @ CHR ''\<newline>'' # w) sub"
    then have "startsWith ((d # l @ ''\<newline>'') @ w) sub" by simp
    from startsWith_append_cases[OF this] show False using Cons.prems assms(2) by auto
  qed
  then show ?case using Cons.IH[OF ni] by simp
qed

lemma occurrences_marker_line:
  "occurrences (markerLine @ w) PATCH_MARKER = 1 + occurrences w PATCH_MARKER"
  by (simp add: markerLine_def PATCH_MARKER_def)

lemma includes_suffix: "includesStr w sub \<Longrightarrow> includesStr (u @ w) sub"
  by (induction u) auto

lemma includes_prefix: "includesStr u sub \<Longrightarrow> includesStr (u @ w) sub"
  unfolding includesStr_iff by (metis append.assoc)

lemma insertMarker_once:
  assumes "\<not> includesStr content PATCH_MARKER"
  shows "occurrences (insertMarker content) PATCH_MARKER = 1"
proof (cases "startsWith content ''#!'' \<and> CHR ''\<newline>'' \<in> set content")
  case False
  then have "insertMarker content = markerLine @ content"
    unfolding insertMarker_shape by (rule if_not_P)
  then show ?thesis using occurrences_zero[OF assms] by (simp add: occurrences_marker_line)
next
  case True
  then have im: "insertMarker content =
      firstLine content @ CHR ''\<newline>'' # markerLine @ drop (length (firstLine content) + 1) content"
    unfolding insertMarker_shape by (simp add: afterLine_def)
  have c: "content = (firstLine content @ ''\<newline>'') @ drop (length (firstLine content) + 1) content"
    using firstLine_split[of content] True by simp
  have a: "\<not> includesStr (firstLine content @ ''\<newline>'') PATCH_MARKER"
    using assms includes_prefix[of "firstLine content @ ''\<newline>''" PATCH_MARKER
        "drop (length (firstLine content) + 1) content"] c by auto
  have b: "\<not> includesStr (drop (length (firstLine content) + 1) content) PATCH_MARKER"
    using assms includes_suffix[of "drop (length (firstLine content) + 1) content" PATCH_MARKER
        "firstLine content @ ''\<newline>''"] c by auto
  have nl: "CHR ''\<newline>'' \<notin> set PATCH_MARKER" by (simp add: PATCH_MARKER_def)
  show ?thesis unfolding im occurrences_skip_line[OF a nl] occurrences_marker_line
    using occurrences_zero[OF b] by simp
qed


section \<open>No rule writes a marker\<close>

text \<open>
  A replacement puts a text in the place of a match. When the text before and after
  the match holds no marker, and the text put there begins and ends with characters
  that are not in the marker and holds none itself, the result holds no marker.
\<close>

lemma getSubstitution_plain:
  "CHR ''$'' \<notin> set t \<Longrightarrow> getSubstitution m b a caps t = t"
proof (induction t rule: length_induct)
  case (1 t)
  show ?case
  proof (cases t)
    case Nil
    then show ?thesis by simp
  next
    case (Cons c t')
    show ?thesis
    proof (cases t')
      case Nil
      then show ?thesis using Cons by simp
    next
      case inner: (Cons d t'')
      have t: "t = c # d # t''" using Cons inner by simp
      have c: "c \<noteq> CHR ''$''" and d: "CHR ''$'' \<notin> set (d # t'')" using 1(2) t by auto
      have "length (d # t'') < length t" using t by simp
      then have "getSubstitution m b a caps (d # t'') = d # t''" using 1(1) d by blast
      then show ?thesis unfolding t using c by simp
    qed
  qed
qed

lemma includes_barrier:
  assumes "z \<notin> set g" and "includesStr (u @ z # v) g"
  shows "includesStr u g \<or> includesStr v g"
proof -
  from assms(2) obtain a b where ab: "u @ z # v = a @ g @ b" unfolding includesStr_iff by blast
  then consider us where "u = a @ us" "us @ z # v = g @ b"
    | us where "a = u @ us" "z # v = us @ g @ b"
    unfolding append_eq_append_conv2[of u "z # v" a "g @ b"] by metis
  then show ?thesis
  proof cases
    case 1
    from 1(2) consider ws where "us = g @ ws" | ws where "us @ ws = g" "z # v = ws @ b"
      unfolding append_eq_append_conv2[of us "z # v" g b] by metis
    then show ?thesis
    proof cases
      case 1
      then have "u = a @ g @ ws" using \<open>u = a @ us\<close> by simp
      then show ?thesis unfolding includesStr_iff by blast
    next
      case 2
      show ?thesis
      proof (cases ws)
        case Nil
        then have "u = a @ g @ []" using 2(1) \<open>u = a @ us\<close> by simp
        then show ?thesis unfolding includesStr_iff by blast
      next
        case (Cons w ws')
        then have "z \<in> set g" using 2 by auto
        then show ?thesis using assms(1) by simp
      qed
    qed
  next
    case 2
    show ?thesis
    proof (cases us)
      case Nil
      show ?thesis
      proof (cases g)
        case Nil
        have "u = u @ g @ []" using Nil by simp
        then show ?thesis unfolding includesStr_iff by blast
      next
        case (Cons g0 g')
        then have "z \<in> set g" using 2(2) \<open>us = []\<close> by auto
        then show ?thesis using assms(1) by simp
      qed
    next
      case (Cons w us')
      then have "v = us' @ g @ b" using 2(2) by simp
      then show ?thesis unfolding includesStr_iff by blast
    qed
  qed
qed

lemma ext_cons: "\<exists>ma. m @ c # acc = ma @ acc"
  by (rule exI[of _ "m @ [c]"]) simp

lemma matchHere_extends:
  "matchHere ml prev ns acc g caps s = Some (acc', caps') \<Longrightarrow> \<exists>m. acc' = m @ acc"

proof (induction ml prev ns acc g caps s rule: matchHere.induct)
  case (1 ml prev acc g caps s)
  then show ?case by simp
next
  case (2 ml prev a ns acc g caps)
  then show ?case by simp
next
  case (3 ml prev a ns acc g caps c cs)
  then show ?case by (cases "accepts a c") (auto simp: ext_cons)
next
  case (4 ml prev a ns acc g caps)
  then show ?case by simp
next
  case (5 ml prev a ns acc g caps c cs)
  show ?case
  proof (cases "accepts a c")
    case False
    then show ?thesis using 5 by simp
  next
    case True
    show ?thesis
    proof (cases "matchHere ml prev (Star a # ns) (c # acc) g caps cs")
      case None
      then show ?thesis using 5 True by simp
    next
      case (Some r)
      then show ?thesis using 5 True by (auto simp: ext_cons)
    qed
  qed
next
  case (6 ml prev a ns acc g caps)
  then show ?case by simp
next
  case (7 ml prev a ns acc g caps c cs)
  then show ?case by (cases "accepts a c") (auto simp: ext_cons)
next
  case (8 ml prev a ns acc g caps)
  then show ?case by simp
next
  case (9 ml prev a ns acc g caps c cs)
  show ?case
  proof (cases "accepts a c")
    case False
    then show ?thesis using 9 by simp
  next
    case True
    show ?thesis
    proof (cases "matchHere ml prev ns (c # acc) g caps cs")
      case None
      then show ?thesis using 9 True by simp
    next
      case (Some r)
      then show ?thesis using 9 True by (auto simp: ext_cons)
    qed
  qed
next
  case (10 ml prev a ns acc g caps)
  then show ?case by simp
next
  case (11 ml prev a ns acc g caps c cs)
  show ?case
  proof (cases "matchHere ml prev ns acc g caps (c # cs)")
    case (Some r)
    then show ?thesis using 11 by simp
  next
    case None
    then show ?thesis using 11 by (cases "accepts a c") (auto simp: ext_cons)
  qed
next
  case (12 ml prev ns acc g caps s)
  then show ?case by (cases "atLineStart ml prev acc") simp_all
next
  case (13 ml prev ns acc g caps s)
  then show ?case by (cases "atLineEnd ml s") simp_all
next
  case (14 ml prev ns acc g caps s)
  then show ?case by simp
next
  case (15 ml prev ns acc g caps s)
  then show ?case by simp
qed

lemma matchHere_caps:
  "matchHere ml prev ns acc g caps s = Some (acc', caps') \<Longrightarrow> Close \<notin> set ns \<Longrightarrow> caps' = caps"

proof (induction ml prev ns acc g caps s rule: matchHere.induct)
  case (1 ml prev acc g caps s)
  then show ?case by simp
next
  case (2 ml prev a ns acc g caps)
  then show ?case by simp
next
  case (3 ml prev a ns acc g caps c cs)
  then show ?case by (cases "accepts a c") simp_all
next
  case (4 ml prev a ns acc g caps)
  then show ?case by simp
next
  case (5 ml prev a ns acc g caps c cs)
  show ?case
  proof (cases "accepts a c")
    case False
    then show ?thesis using 5 by simp
  next
    case True
    show ?thesis
    proof (cases "matchHere ml prev (Star a # ns) (c # acc) g caps cs")
      case None
      then show ?thesis using 5 True by simp
    next
      case (Some r)
      then show ?thesis using 5 True by simp
    qed
  qed
next
  case (6 ml prev a ns acc g caps)
  then show ?case by simp
next
  case (7 ml prev a ns acc g caps c cs)
  then show ?case by (cases "accepts a c") simp_all
next
  case (8 ml prev a ns acc g caps)
  then show ?case by simp
next
  case (9 ml prev a ns acc g caps c cs)
  show ?case
  proof (cases "accepts a c")
    case False
    then show ?thesis using 9 by simp
  next
    case True
    show ?thesis
    proof (cases "matchHere ml prev ns (c # acc) g caps cs")
      case None
      then show ?thesis using 9 True by simp
    next
      case (Some r)
      then show ?thesis using 9 True by simp
    qed
  qed
next
  case (10 ml prev a ns acc g caps)
  then show ?case by simp
next
  case (11 ml prev a ns acc g caps c cs)
  show ?case
  proof (cases "matchHere ml prev ns acc g caps (c # cs)")
    case (Some r)
    then show ?thesis using 11 by simp
  next
    case None
    then show ?thesis using 11 by (cases "accepts a c") simp_all
  qed
next
  case (12 ml prev ns acc g caps s)
  then show ?case by (cases "atLineStart ml prev acc") simp_all
next
  case (13 ml prev ns acc g caps s)
  then show ?case by (cases "atLineEnd ml s") simp_all
next
  case (14 ml prev ns acc g caps s)
  then show ?case by simp
next
  case (15 ml prev ns acc g caps s)
  then show ?case by simp
qed

lemma lazy_sound:
  "matchHere ml prev (LazyStar a # ns) acc g caps s = Some r \<Longrightarrow>
     \<exists>xs t. s = xs @ t \<and> matchHere ml prev ns (rev xs @ acc) g caps t = Some r"
proof (induction s arbitrary: acc)
  case Nil
  then have "matchHere ml prev ns acc g caps [] = Some r" by simp
  then show ?case by - (rule exI[of _ "[]"], simp)
next
  case (Cons c cs)
  show ?case
  proof (cases "matchHere ml prev ns acc g caps (c # cs)")
    case (Some r')
    then have "matchHere ml prev ns acc g caps (c # cs) = Some r" using Cons.prems by simp
    then show ?thesis by - (rule exI[of _ "[]"], rule exI[of _ "c # cs"], simp)
  next
    case None
    have ac: "accepts a c" using Cons.prems None by (cases "accepts a c") simp_all
    then have "matchHere ml prev (LazyStar a # ns) (c # acc) g caps cs = Some r"
      using Cons.prems None by simp
    from Cons.IH[OF this] obtain xs t where
      *: "cs = xs @ t" "matchHere ml prev ns (rev xs @ c # acc) g caps t = Some r" by blast
    show ?thesis using * by - (rule exI[of _ "c # xs"], rule exI[of _ t], simp)
  qed
qed

lemma includes_drop_tail:
  assumes "includesStr (u @ v) g" and "g \<noteq> []" and "last g \<notin> set v"
  shows "includesStr u g"
proof -
  from assms(1) obtain a b where ab: "u @ v = (a @ g) @ b" unfolding includesStr_iff by auto
  then consider us where "u = (a @ g) @ us" | us where "a @ g = u @ us" "v = us @ b"
    unfolding append_eq_append_conv2[of u v "a @ g" b] by metis
  then show ?thesis
  proof cases
    case 1
    then have "u = a @ g @ us" by simp
    then show ?thesis unfolding includesStr_iff by blast
  next
    case 2
    show ?thesis
    proof (cases us)
      case Nil
      then have "u = a @ g @ []" using 2(1) by simp
      then show ?thesis unfolding includesStr_iff by blast
    next
      case (Cons w ws)
      then have "last (a @ g) = last us" using 2(1) by simp
      then have "last g = last us" using assms(2) by simp
      moreover have "last us \<in> set us" using Cons by simp
      ultimately have "last g \<in> set v" using 2(2) by simp
      then show ?thesis using assms(3) by simp
    qed
  qed
qed

lemma template_safe:
  assumes "t \<noteq> []" and "hd t \<notin> set g" and "last t \<notin> set g" and "\<not> includesStr t g"
    and "includesStr (a @ t @ rest) g"
  shows "includesStr a g \<or> includesStr rest g"
proof -
  obtain z1 t1 where t: "t = z1 # t1" using assms(1) by (cases t) auto
  have z1: "z1 \<notin> set g" using assms(2) t by simp
  have "includesStr (a @ z1 # (t1 @ rest)) g" using assms(5) t by simp
  from includes_barrier[OF z1 this] show ?thesis
  proof
    assume "includesStr a g"
    then show ?thesis by simp
  next
    assume h: "includesStr (t1 @ rest) g"
    show ?thesis
    proof (cases "t1 = []")
      case True
      then show ?thesis using h by simp
    next
      case False
      then have t1: "t1 = butlast t1 @ [last t1]" by simp
      have l: "last t1 \<notin> set g" using assms(3) t False by simp
      have "includesStr (butlast t1 @ last t1 # rest) g" using h t1
        by (metis append.assoc append_Cons append_Nil)
      from includes_barrier[OF l this] show ?thesis
      proof
        assume "includesStr (butlast t1) g"
        then have "includesStr (butlast t1 @ [last t1]) g" by (rule includes_prefix)
        then have "includesStr t1 g" using t1 by simp
        then have "includesStr ([z1] @ t1) g" by (rule includes_suffix)
        then show ?thesis using assms(4) t by simp
      next
        assume "includesStr rest g"
        then show ?thesis by simp
      qed
    qed
  qed
qed

lemma replace_fresh:
  assumes step: "\<And>a pre s acc caps.
      matchHere (multiline r) (prevOf pre) (source r) [] 0 [] s = Some (acc, caps) \<Longrightarrow>
      \<not> includesStr (a @ s) g \<Longrightarrow>
      acc \<noteq> [] \<and> \<not> includesStr (a @ substitute rp pre acc caps (drop (length acc) s)
                                  @ drop (length acc) s) g"
  shows "\<not> includesStr (a @ s) g \<Longrightarrow> \<not> includesStr (a @ replaceFrom r rp pre s) g"
proof (induction s arbitrary: a pre rule: length_induct)
  case (1 s)
  show ?case
  proof (cases "matchHere (multiline r) (prevOf pre) (source r) [] 0 [] s")
    case None
    show ?thesis
    proof (cases s)
      case Nil
      then show ?thesis using None "1.prems" by simp
    next
      case (Cons c cs)
      have "\<not> includesStr ((a @ [c]) @ cs) g" using "1.prems" Cons by simp
      moreover have "length cs < length s" using Cons by simp
      ultimately have "\<not> includesStr ((a @ [c]) @ replaceFrom r rp (c # pre) cs) g"
        using "1.IH" by blast
      then show ?thesis using None Cons by simp
    qed
  next
    case (Some p)
    obtain acc caps where p: "p = (acc, caps)" by (cases p) auto
    have m: "matchHere (multiline r) (prevOf pre) (source r) [] 0 [] s = Some (acc, caps)"
      using Some p by simp
    from step[OF m "1.prems"] have ne: "acc \<noteq> []"
      and ns: "\<not> includesStr (a @ substitute rp pre acc caps (drop (length acc) s)
                                  @ drop (length acc) s) g" by simp_all
    from matchHere_consumed[OF m] obtain t where t: "rev acc @ t = s" by auto
    then have s: "s \<noteq> []" using ne by auto
    then obtain c cs where cs: "s = c # cs" by (cases s) auto
    have d: "drop (length acc - 1) cs = drop (length acc) s" using ne cs by (cases acc) simp_all
    show ?thesis
    proof (cases "global r")
      case False
      then show ?thesis using m cs ns by simp
    next
      case True
      have "length (drop (length acc) s) < length s" using ne s by (cases acc) auto
      moreover have "\<not> includesStr ((a @ substitute rp pre acc caps (drop (length acc) s))
                                      @ drop (length acc) s) g" using ns by simp
      ultimately have "\<not> includesStr ((a @ substitute rp pre acc caps (drop (length acc) s))
             @ replaceFrom r rp (acc @ pre) (drop (length acc) s)) g"
        using "1.IH" by blast
      then show ?thesis using m cs True ne d by simp
    qed
  qed
qed

lemma fresh_safe:
  assumes "CHR ''$'' \<notin> set t"
    and safe: "\<And>a rest. includesStr (a @ t @ rest) g \<Longrightarrow> includesStr a g \<or> includesStr rest g"
    and "One (Chr z) \<in> set (source r)"
    and "\<not> includesStr (a @ s) g"
  shows "\<not> includesStr (a @ replaceFrom r (Template t) pre s) g"
proof (rule replace_fresh[OF _ assms(4)])
  fix a pre s acc caps
  assume m: "matchHere (multiline r) (prevOf pre) (source r) [] 0 [] s = Some (acc, caps)"
    and n: "\<not> includesStr (a @ s) g"
  have "z \<in> set acc" using matchHere_must[OF m] assms(3) by blast
  then have ne: "acc \<noteq> []" by auto
  from matchHere_consumed[OF m] obtain u where u: "rev acc @ u = s" by auto
  then have d: "drop (length acc) s = u" by auto
  have sub: "substitute (Template t) pre acc caps u = t"
    using assms(1) by (simp add: getSubstitution_plain)
  have "\<not> includesStr (a @ t @ u) g"
  proof
    assume "includesStr (a @ t @ u) g"
    from safe[OF this] show False
    proof
      assume "includesStr a g"
      then have "includesStr (a @ s) g" by (rule includes_prefix)
      then show False using n by simp
    next
      assume "includesStr u g"
      then have "includesStr ((a @ rev acc) @ u) g" by (rule includes_suffix)
      then show False using n u by auto
    qed
  qed
  then show "acc \<noteq> [] \<and> \<not> includesStr (a @ substitute (Template t) pre acc caps (drop (length acc) s)
                                  @ drop (length acc) s) g"
    using ne d sub by simp
qed

lemma fresh_plain:
  assumes "CHR ''$'' \<notin> set t" and "t \<noteq> []" and "hd t \<notin> set g" and "last t \<notin> set g"
    and "\<not> includesStr t g" and "One (Chr z) \<in> set (source r)"
    and "\<not> includesStr (a @ s) g"
  shows "\<not> includesStr (a @ replaceFrom r (Template t) pre s) g"
  by (rule fresh_safe[OF assms(1) _ assms(6) assms(7)]) (rule template_safe[OF assms(2-5)])

lemma walkForTsConfig_fresh:
  "\<not> includesStr (a @ s) PATCH_MARKER \<Longrightarrow>
     \<not> includesStr (a @ replaceFrom walkForTsConfig_pattern (Template walkForTsConfig_replacement) pre s) PATCH_MARKER"
proof (rule fresh_plain)
  show "CHR ''$'' \<notin> set walkForTsConfig_replacement" by (simp add: walkForTsConfig_replacement_def)
  show "walkForTsConfig_replacement \<noteq> []" by (simp add: walkForTsConfig_replacement_def)
  show "hd walkForTsConfig_replacement \<notin> set PATCH_MARKER" by (simp add: walkForTsConfig_replacement_def PATCH_MARKER_def)
  show "last walkForTsConfig_replacement \<notin> set PATCH_MARKER" by (simp add: walkForTsConfig_replacement_def PATCH_MARKER_def)
  show "\<not> includesStr walkForTsConfig_replacement PATCH_MARKER" by (simp add: walkForTsConfig_replacement_def PATCH_MARKER_def)
  show "One (Chr CHR ''f'') \<in> set (source walkForTsConfig_pattern)" by (simp add: walkForTsConfig_pattern_def lit_def)
qed

lemma recusivelyResolveSync_fresh:
  "\<not> includesStr (a @ s) PATCH_MARKER \<Longrightarrow>
     \<not> includesStr (a @ replaceFrom recusivelyResolveSync_pattern (Template recusivelyResolveSync_replacement) pre s) PATCH_MARKER"
proof (rule fresh_plain)
  show "CHR ''$'' \<notin> set recusivelyResolveSync_replacement" by (simp add: recusivelyResolveSync_replacement_def)
  show "recusivelyResolveSync_replacement \<noteq> []" by (simp add: recusivelyResolveSync_replacement_def)
  show "hd recusivelyResolveSync_replacement \<notin> set PATCH_MARKER" by (simp add: recusivelyResolveSync_replacement_def PATCH_MARKER_def)
  show "last recusivelyResolveSync_replacement \<notin> set PATCH_MARKER" by (simp add: recusivelyResolveSync_replacement_def PATCH_MARKER_def)
  show "\<not> includesStr recusivelyResolveSync_replacement PATCH_MARKER" by (simp add: recusivelyResolveSync_replacement_def PATCH_MARKER_def)
  show "One (Chr CHR ''r'') \<in> set (source recusivelyResolveSync_pattern)" by (simp add: recusivelyResolveSync_pattern_def lit_def)
qed

lemma supportsColor_fresh:
  "\<not> includesStr (a @ s) PATCH_MARKER \<Longrightarrow>
     \<not> includesStr (a @ replaceFrom supportsColor_pattern (Template supportsColor_replacement) pre s) PATCH_MARKER"
proof (rule fresh_plain)
  show "CHR ''$'' \<notin> set supportsColor_replacement" by (simp add: supportsColor_replacement_def)
  show "supportsColor_replacement \<noteq> []" by (simp add: supportsColor_replacement_def)
  show "hd supportsColor_replacement \<notin> set PATCH_MARKER" by (simp add: supportsColor_replacement_def PATCH_MARKER_def)
  show "last supportsColor_replacement \<notin> set PATCH_MARKER" by (simp add: supportsColor_replacement_def PATCH_MARKER_def)
  show "\<not> includesStr supportsColor_replacement PATCH_MARKER" by (simp add: supportsColor_replacement_def PATCH_MARKER_def)
  show "One (Chr CHR ''f'') \<in> set (source supportsColor_pattern)" by (simp add: supportsColor_pattern_def lit_def)
qed

lemma supportsColor2_fresh:
  "\<not> includesStr (a @ s) PATCH_MARKER \<Longrightarrow>
     \<not> includesStr (a @ replaceFrom supportsColor2_pattern (Template supportsColor2_replacement) pre s) PATCH_MARKER"
proof (rule fresh_plain)
  show "CHR ''$'' \<notin> set supportsColor2_replacement" by (simp add: supportsColor2_replacement_def)
  show "supportsColor2_replacement \<noteq> []" by (simp add: supportsColor2_replacement_def)
  show "hd supportsColor2_replacement \<notin> set PATCH_MARKER" by (simp add: supportsColor2_replacement_def PATCH_MARKER_def)
  show "last supportsColor2_replacement \<notin> set PATCH_MARKER" by (simp add: supportsColor2_replacement_def PATCH_MARKER_def)
  show "\<not> includesStr supportsColor2_replacement PATCH_MARKER" by (simp add: supportsColor2_replacement_def PATCH_MARKER_def)
  show "One (Chr CHR ''f'') \<in> set (source supportsColor2_pattern)" by (simp add: supportsColor2_pattern_def lit_def)
qed

lemma bufferutil_fresh:
  "\<not> includesStr (a @ s) PATCH_MARKER \<Longrightarrow>
     \<not> includesStr (a @ replaceFrom bufferutil_pattern (Template bufferutil_replacement) pre s) PATCH_MARKER"
proof (rule fresh_plain)
  show "CHR ''$'' \<notin> set bufferutil_replacement" by (simp add: bufferutil_replacement_def)
  show "bufferutil_replacement \<noteq> []" by (simp add: bufferutil_replacement_def)
  show "hd bufferutil_replacement \<notin> set PATCH_MARKER" by (simp add: bufferutil_replacement_def PATCH_MARKER_def)
  show "last bufferutil_replacement \<notin> set PATCH_MARKER" by (simp add: bufferutil_replacement_def PATCH_MARKER_def)
  show "\<not> includesStr bufferutil_replacement PATCH_MARKER" by (simp add: bufferutil_replacement_def PATCH_MARKER_def)
  show "One (Chr CHR ''i'') \<in> set (source bufferutil_pattern)" by (simp add: bufferutil_pattern_def lit_def)
qed

lemma dotenvOptions_fresh:
  "\<not> includesStr (a @ s) PATCH_MARKER \<Longrightarrow>
     \<not> includesStr (a @ replaceFrom dotenvOptions_pattern (Template dotenvOptions_replacement) pre s) PATCH_MARKER"
proof (rule fresh_plain)
  show "CHR ''$'' \<notin> set dotenvOptions_replacement" by (simp add: dotenvOptions_replacement_def)
  show "dotenvOptions_replacement \<noteq> []" by (simp add: dotenvOptions_replacement_def)
  show "hd dotenvOptions_replacement \<notin> set PATCH_MARKER" by (simp add: dotenvOptions_replacement_def PATCH_MARKER_def)
  show "last dotenvOptions_replacement \<notin> set PATCH_MARKER" by (simp add: dotenvOptions_replacement_def PATCH_MARKER_def)
  show "\<not> includesStr dotenvOptions_replacement PATCH_MARKER" by (simp add: dotenvOptions_replacement_def PATCH_MARKER_def)
  show "One (Chr CHR ''.'') \<in> set (source dotenvOptions_pattern)" by (simp add: dotenvOptions_pattern_def lit_def)
qed

lemma deferHomedir_fresh:
  "\<not> includesStr (a @ s) PATCH_MARKER \<Longrightarrow>
     \<not> includesStr (a @ replaceFrom deferHomedir_pattern (Template deferHomedir_replacement) pre s) PATCH_MARKER"
proof (rule fresh_plain)
  show "CHR ''$'' \<notin> set deferHomedir_replacement" by (simp add: deferHomedir_replacement_def)
  show "deferHomedir_replacement \<noteq> []" by (simp add: deferHomedir_replacement_def)
  show "hd deferHomedir_replacement \<notin> set PATCH_MARKER" by (simp add: deferHomedir_replacement_def PATCH_MARKER_def)
  show "last deferHomedir_replacement \<notin> set PATCH_MARKER" by (simp add: deferHomedir_replacement_def PATCH_MARKER_def)
  show "\<not> includesStr deferHomedir_replacement PATCH_MARKER" by (simp add: deferHomedir_replacement_def PATCH_MARKER_def)
  show "One (Chr CHR ''v'') \<in> set (source deferHomedir_pattern)" by (simp add: deferHomedir_pattern_def lit_def)
qed

lemma deferTmpdir_fresh:
  "\<not> includesStr (a @ s) PATCH_MARKER \<Longrightarrow>
     \<not> includesStr (a @ replaceFrom deferTmpdir_pattern (Template deferTmpdir_replacement) pre s) PATCH_MARKER"
proof (rule fresh_plain)
  show "CHR ''$'' \<notin> set deferTmpdir_replacement" by (simp add: deferTmpdir_replacement_def)
  show "deferTmpdir_replacement \<noteq> []" by (simp add: deferTmpdir_replacement_def)
  show "hd deferTmpdir_replacement \<notin> set PATCH_MARKER" by (simp add: deferTmpdir_replacement_def PATCH_MARKER_def)
  show "last deferTmpdir_replacement \<notin> set PATCH_MARKER" by (simp add: deferTmpdir_replacement_def PATCH_MARKER_def)
  show "\<not> includesStr deferTmpdir_replacement PATCH_MARKER" by (simp add: deferTmpdir_replacement_def PATCH_MARKER_def)
  show "One (Chr CHR ''v'') \<in> set (source deferTmpdir_pattern)" by (simp add: deferTmpdir_pattern_def lit_def)
qed

lemma lazyHomedir_fresh:
  "\<not> includesStr (a @ s) PATCH_MARKER \<Longrightarrow>
     \<not> includesStr (a @ replaceFrom lazyHomedir_pattern (Template lazyHomedir_replacement) pre s) PATCH_MARKER"
proof (rule fresh_plain)
  show "CHR ''$'' \<notin> set lazyHomedir_replacement" by (simp add: lazyHomedir_replacement_def)
  show "lazyHomedir_replacement \<noteq> []" by (simp add: lazyHomedir_replacement_def)
  show "hd lazyHomedir_replacement \<notin> set PATCH_MARKER" by (simp add: lazyHomedir_replacement_def PATCH_MARKER_def)
  show "last lazyHomedir_replacement \<notin> set PATCH_MARKER" by (simp add: lazyHomedir_replacement_def PATCH_MARKER_def)
  show "\<not> includesStr lazyHomedir_replacement PATCH_MARKER" by (simp add: lazyHomedir_replacement_def PATCH_MARKER_def)
  show "One (Chr CHR ''i'') \<in> set (source lazyHomedir_pattern)" by (simp add: lazyHomedir_pattern_def lit_def)
qed

lemma lazyTmpdir_fresh:
  "\<not> includesStr (a @ s) PATCH_MARKER \<Longrightarrow>
     \<not> includesStr (a @ replaceFrom lazyTmpdir_pattern (Template lazyTmpdir_replacement) pre s) PATCH_MARKER"
proof (rule fresh_plain)
  show "CHR ''$'' \<notin> set lazyTmpdir_replacement" by (simp add: lazyTmpdir_replacement_def)
  show "lazyTmpdir_replacement \<noteq> []" by (simp add: lazyTmpdir_replacement_def)
  show "hd lazyTmpdir_replacement \<notin> set PATCH_MARKER" by (simp add: lazyTmpdir_replacement_def PATCH_MARKER_def)
  show "last lazyTmpdir_replacement \<notin> set PATCH_MARKER" by (simp add: lazyTmpdir_replacement_def PATCH_MARKER_def)
  show "\<not> includesStr lazyTmpdir_replacement PATCH_MARKER" by (simp add: lazyTmpdir_replacement_def PATCH_MARKER_def)
  show "One (Chr CHR ''i'') \<in> set (source lazyTmpdir_pattern)" by (simp add: lazyTmpdir_pattern_def lit_def)
qed

lemma safeRegister_fresh:
  "\<not> includesStr (a @ s) PATCH_MARKER \<Longrightarrow>
     \<not> includesStr (a @ replaceFrom safeRegister_pattern (Template safeRegister_replacement) pre s) PATCH_MARKER"
proof (rule fresh_plain)
  show "CHR ''$'' \<notin> set safeRegister_replacement" by (simp add: safeRegister_replacement_def)
  show "safeRegister_replacement \<noteq> []" by (simp add: safeRegister_replacement_def)
  show "hd safeRegister_replacement \<notin> set PATCH_MARKER" by (simp add: safeRegister_replacement_def PATCH_MARKER_def)
  show "last safeRegister_replacement \<notin> set PATCH_MARKER" by (simp add: safeRegister_replacement_def PATCH_MARKER_def)
  show "\<not> includesStr safeRegister_replacement PATCH_MARKER" by (simp add: safeRegister_replacement_def PATCH_MARKER_def)
  show "One (Chr CHR ''s'') \<in> set (source safeRegister_pattern)" by (simp add: safeRegister_pattern_def lit_def)
qed

lemma dotenvConfig_fresh:
  "\<not> includesStr (a @ s) PATCH_MARKER \<Longrightarrow>
     \<not> includesStr (a @ replaceFrom dotenvConfig_pattern (Template dotenvConfig_replacement) pre s) PATCH_MARKER"
proof (rule fresh_safe)
  show "CHR ''$'' \<notin> set dotenvConfig_replacement" by (simp add: dotenvConfig_replacement_def)
  show "One (Chr CHR ''.'') \<in> set (source dotenvConfig_pattern)"
    by (simp add: dotenvConfig_pattern_def lit_def)
  fix a rest
  assume h: "includesStr (a @ dotenvConfig_replacement @ rest) PATCH_MARKER"
  obtain t' where t': "dotenvConfig_replacement = ''// '' @ t'" and ne: "t' \<noteq> []"
    and hd: "hd t' \<notin> set PATCH_MARKER" and la: "last t' \<notin> set PATCH_MARKER"
    and ni: "\<not> includesStr t' PATCH_MARKER"
    by (simp add: dotenvConfig_replacement_def PATCH_MARKER_def)
  have "includesStr ((a @ ''// '') @ t' @ rest) PATCH_MARKER" using h unfolding t' by simp
  from template_safe[OF ne hd la ni this]
  show "includesStr a PATCH_MARKER \<or> includesStr rest PATCH_MARKER"
  proof
    assume "includesStr (a @ ''// '') PATCH_MARKER"
    then have "includesStr a PATCH_MARKER"
      by (rule includes_drop_tail) (simp_all add: PATCH_MARKER_def)
    then show ?thesis by simp
  next
    assume "includesStr rest PATCH_MARKER"
    then show ?thesis by simp
  qed
qed

lemma includes_set: "includesStr s g \<Longrightarrow> set g \<subseteq> set s"
  unfolding includesStr_iff by auto

lemma import_shape:
  assumes "matchHere ml pv (lit l1 @ [Open, Plus Word, Close] @ lit l2) [] 0 [] s = Some (acc, caps)"
  shows "\<exists>w. caps = [w] \<and> (\<forall>c \<in> set w. isWord c)"
proof -
  from assms have m1: "matchHere ml pv (Plus Word # Close # lit l2 @ []) (rev l1) (length l1) []
      (drop (length l1) s) = Some (acc, caps)"
    unfolding matchHere_lit by (simp split: if_splits)
  from plus_sound[OF m1] obtain xs t where xs: "\<forall>c \<in> set xs. accepts Word c"
    and m2: "matchHere ml pv (Close # lit l2 @ []) (rev xs @ rev l1) (length l1) [] t = Some (acc, caps)"
    by blast
  from m2 have "matchHere ml pv (lit l2 @ []) (rev xs @ rev l1) (length l1) [xs] t = Some (acc, caps)"
    by simp
  then have "caps = [xs]" unfolding matchHere_lit by (simp split: if_splits)
  then show ?thesis using xs by simp
qed

lemma slash_in_marker: "CHR ''/'' \<in> set PATCH_MARKER"
  by (simp add: PATCH_MARKER_def)

lemma parens_not_in_marker: "CHR ''('' \<notin> set PATCH_MARKER" "CHR '')'' \<notin> set PATCH_MARKER"
  by (simp_all add: PATCH_MARKER_def)

lemma import_safe:
  assumes w: "\<forall>c \<in> set w. isWord c"
    and h: "includesStr (a @ (c1 # m1 @ ''('' @ w @ '')'' @ m2 @ [c2]) @ rest) PATCH_MARKER"
    and c: "c1 \<notin> set PATCH_MARKER" "c2 \<notin> set PATCH_MARKER"
    and m: "\<not> includesStr m1 PATCH_MARKER" "\<not> includesStr m2 PATCH_MARKER"
  shows "includesStr a PATCH_MARKER \<or> includesStr rest PATCH_MARKER"
proof -
  have nw: "\<not> includesStr w PATCH_MARKER"
  proof
    assume "includesStr w PATCH_MARKER"
    then have "CHR ''/'' \<in> set w" using includes_set[of w PATCH_MARKER] slash_in_marker by blast
    then have "isWord CHR ''/''" using w by blast
    then show False by (simp add: isWord_def isDigit_def)
  qed
  have "includesStr (a @ c1 # (m1 @ CHR ''('' # w @ CHR '')'' # m2 @ c2 # rest)) PATCH_MARKER"
    using h by simp
  from includes_barrier[OF c(1) this] show ?thesis
  proof
    assume "includesStr a PATCH_MARKER"
    then show ?thesis by simp
  next
    assume "includesStr (m1 @ CHR ''('' # w @ CHR '')'' # m2 @ c2 # rest) PATCH_MARKER"
    from includes_barrier[OF parens_not_in_marker(1) this] m(1)
    have "includesStr (w @ CHR '')'' # m2 @ c2 # rest) PATCH_MARKER" by simp
    from includes_barrier[OF parens_not_in_marker(2) this] nw
    have "includesStr (m2 @ c2 # rest) PATCH_MARKER" by simp
    from includes_barrier[OF c(2) this] m(2) show ?thesis by simp
  qed
qed

lemma configLoading_fresh:
  assumes "\<not> includesStr (a @ s) PATCH_MARKER"
  shows "\<not> includesStr (a @ replaceFrom configLoading_pattern (Template configLoading_replacement) pre s) PATCH_MARKER"
proof (rule replace_fresh[OF _ assms])
  fix a pre s acc caps
  assume m: "matchHere (multiline configLoading_pattern) (prevOf pre) (source configLoading_pattern) [] 0 [] s
      = Some (acc, caps)"
    and n: "\<not> includesStr (a @ s) PATCH_MARKER"
  have "One (Chr CHR ''c'') \<in> set (source configLoading_pattern)"
    by (simp add: configLoading_pattern_def lit_def)
  then have "CHR ''c'' \<in> set acc" using matchHere_must[OF m] by blast
  then have ne: "acc \<noteq> []" by auto
  from matchHere_consumed[OF m] obtain u where u: "rev acc @ u = s" by auto
  then have d: "drop (length acc) s = u" by auto
  from import_shape[OF m[unfolded configLoading_pattern_def RegExp.sel]]
  obtain w where w: "caps = [w]" "\<forall>c \<in> set w. isWord c" by blast
  have sub: "substitute (Template configLoading_replacement) pre acc caps u
      = CHR ''c'' # ''onst required = await import'' @ ''('' @ w @ '')'' @ ''; // PATCHED: import for Deno TS suppor'' @ ''t''"
    unfolding w(1) by (simp add: configLoading_replacement_def isDigit_def digitVal_def)
  have "\<not> includesStr (a @ (CHR ''c'' # ''onst required = await import'' @ ''('' @ w @ '')''
          @ ''; // PATCHED: import for Deno TS suppor'' @ ''t'') @ u) PATCH_MARKER"
  proof
    assume "includesStr (a @ (CHR ''c'' # ''onst required = await import'' @ ''('' @ w @ '')''
          @ ''; // PATCHED: import for Deno TS suppor'' @ ''t'') @ u) PATCH_MARKER"
    from import_safe[OF w(2) this] have "includesStr a PATCH_MARKER \<or> includesStr u PATCH_MARKER"
      by (simp add: PATCH_MARKER_def)
    then show False
    proof
      assume "includesStr a PATCH_MARKER"
      then have "includesStr (a @ s) PATCH_MARKER" by (rule includes_prefix)
      then show False using n by simp
    next
      assume "includesStr u PATCH_MARKER"
      then have "includesStr ((a @ rev acc) @ u) PATCH_MARKER" by (rule includes_suffix)
      then show False using n u by auto
    qed
  qed
  then show "acc \<noteq> [] \<and> \<not> includesStr (a @ substitute (Template configLoading_replacement) pre acc caps
                 (drop (length acc) s) @ drop (length acc) s) PATCH_MARKER"
    using ne unfolding d sub by simp
qed

lemma schemaLoading_fresh:
  assumes "\<not> includesStr (a @ s) PATCH_MARKER"
  shows "\<not> includesStr (a @ replaceFrom schemaLoading_pattern (Template schemaLoading_replacement) pre s) PATCH_MARKER"
proof (rule replace_fresh[OF _ assms])
  fix a pre s acc caps
  assume m: "matchHere (multiline schemaLoading_pattern) (prevOf pre) (source schemaLoading_pattern) [] 0 [] s
      = Some (acc, caps)"
    and n: "\<not> includesStr (a @ s) PATCH_MARKER"
  have "One (Chr CHR ''c'') \<in> set (source schemaLoading_pattern)"
    by (simp add: schemaLoading_pattern_def lit_def)
  then have "CHR ''c'' \<in> set acc" using matchHere_must[OF m] by blast
  then have ne: "acc \<noteq> []" by auto
  from matchHere_consumed[OF m] obtain u where u: "rev acc @ u = s" by auto
  then have d: "drop (length acc) s = u" by auto
  from import_shape[OF m[unfolded schemaLoading_pattern_def RegExp.sel]]
  obtain w where w: "caps = [w]" "\<forall>c \<in> set w. isWord c" by blast
  have sub: "substitute (Template schemaLoading_replacement) pre acc caps u
      = CHR ''c'' # ''onst i0 = await import'' @ ''('' @ w @ '')'' @ ''; // PATCHED: import for Deno TS suppor'' @ ''t''"
    unfolding w(1) by (simp add: schemaLoading_replacement_def isDigit_def digitVal_def)
  have "\<not> includesStr (a @ (CHR ''c'' # ''onst i0 = await import'' @ ''('' @ w @ '')''
          @ ''; // PATCHED: import for Deno TS suppor'' @ ''t'') @ u) PATCH_MARKER"
  proof
    assume "includesStr (a @ (CHR ''c'' # ''onst i0 = await import'' @ ''('' @ w @ '')''
          @ ''; // PATCHED: import for Deno TS suppor'' @ ''t'') @ u) PATCH_MARKER"
    from import_safe[OF w(2) this] have "includesStr a PATCH_MARKER \<or> includesStr u PATCH_MARKER"
      by (simp add: PATCH_MARKER_def)
    then show False
    proof
      assume "includesStr a PATCH_MARKER"
      then have "includesStr (a @ s) PATCH_MARKER" by (rule includes_prefix)
      then show False using n by simp
    next
      assume "includesStr u PATCH_MARKER"
      then have "includesStr ((a @ rev acc) @ u) PATCH_MARKER" by (rule includes_suffix)
      then show False using n u by auto
    qed
  qed
  then show "acc \<noteq> [] \<and> \<not> includesStr (a @ substitute (Template schemaLoading_replacement) pre acc caps
                 (drop (length acc) s) @ drop (length acc) s) PATCH_MARKER"
    using ne unfolding d sub by simp
qed

lemma cliExit_shape:
  assumes "matchHere ml pv (source cliExit_pattern) [] 0 [] s = Some (acc, caps)"
  shows "\<exists>w tl. caps = [w] \<and> rev acc = w @ tl"
proof -
  have src: "source cliExit_pattern =
      Bol # Open # lit ''run([generate, migrate, pull, push, studio'' @ (Star Dot # lit ''], {''
        @ (LazyStar AnyCh # lit ''})'' @ [Close, Opt (Chr CHR '';''), Star Space, Eol]))"
    by (simp add: cliExit_pattern_def)
  from assms obtain s1 where
    m1: "matchHere ml pv (Star Dot # lit ''], {''
        @ (LazyStar AnyCh # lit ''})'' @ [Close, Opt (Chr CHR '';''), Star Space, Eol]))
        (rev ''run([generate, migrate, pull, push, studio'') 0 [] s1 = Some (acc, caps)"
    unfolding src by (simp add: matchHere_lit split: if_splits)
  from star_sound[OF m1] obtain xs s2 where
    m2: "matchHere ml pv (lit ''], {''
        @ (LazyStar AnyCh # lit ''})'' @ [Close, Opt (Chr CHR '';''), Star Space, Eol]))
        (rev xs @ rev ''run([generate, migrate, pull, push, studio'') 0 [] s2 = Some (acc, caps)"
    by blast
  then obtain a3 s3 where
    m3: "matchHere ml pv (LazyStar AnyCh # lit ''})'' @ [Close, Opt (Chr CHR '';''), Star Space, Eol])
        a3 0 [] s3 = Some (acc, caps)"
    unfolding matchHere_lit by (simp split: if_splits)
  from lazy_sound[OF m3] obtain ys s4 where
    m4: "matchHere ml pv (lit ''})'' @ [Close, Opt (Chr CHR '';''), Star Space, Eol])
        (rev ys @ a3) 0 [] s4 = Some (acc, caps)"
    by blast
  then have m5: "matchHere ml pv [Opt (Chr CHR '';''), Star Space, Eol] (rev ''})'' @ rev ys @ a3) 0
        [rev (rev ''})'' @ rev ys @ a3)] (drop (length ''})'') s4) = Some (acc, caps)"
    unfolding matchHere_lit by (simp split: if_splits)
  from matchHere_extends[OF m5] obtain m where m: "acc = m @ (rev ''})'' @ rev ys @ a3)" by blast
  have "caps = [rev (rev ''})'' @ rev ys @ a3)]" using matchHere_caps[OF m5] by simp
  then show ?thesis using m by simp
qed

lemma cliExit_fresh:
  assumes "\<not> includesStr (a @ s) PATCH_MARKER"
  shows "\<not> includesStr (a @ replaceFrom cliExit_pattern (Template cliExit_replacement) pre s) PATCH_MARKER"
proof (rule replace_fresh[OF _ assms])
  fix a pre s acc caps
  assume m: "matchHere (multiline cliExit_pattern) (prevOf pre) (source cliExit_pattern) [] 0 [] s
      = Some (acc, caps)"
    and n: "\<not> includesStr (a @ s) PATCH_MARKER"
  have "One (Chr CHR ''r'') \<in> set (source cliExit_pattern)"
    by (simp add: cliExit_pattern_def lit_def)
  then have "CHR ''r'' \<in> set acc" using matchHere_must[OF m] by blast
  then have ne: "acc \<noteq> []" by auto
  from matchHere_consumed[OF m] obtain u where u: "rev acc @ u = s" by auto
  then have d: "drop (length acc) s = u" by auto
  from cliExit_shape[OF m] obtain w tl where w: "caps = [w]" "rev acc = w @ tl" by blast
  obtain t2 where t2: "cliExit_replacement = ''$1'' @ t2" and p: "CHR ''$'' \<notin> set t2"
    and t2ne: "t2 \<noteq> []" and hd: "hd t2 \<notin> set PATCH_MARKER" "\<not> isDigit (hd t2)"
    and la: "last t2 \<notin> set PATCH_MARKER" and ni: "\<not> includesStr t2 PATCH_MARKER"
    by (simp add: cliExit_replacement_def PATCH_MARKER_def isDigit_def)
  obtain e t3 where e: "t2 = e # t3" using t2ne by (cases t2) auto
  have "getSubstitution (rev acc) (rev pre) u [w] (CHR ''$'' # CHR ''1'' # e # t3)
      = w @ getSubstitution (rev acc) (rev pre) u [w] (e # t3)"
    using hd(2) e by (simp add: isDigit_def digitVal_def)
  then have sub: "substitute (Template cliExit_replacement) pre acc caps u = w @ t2"
    unfolding w(1) t2 using getSubstitution_plain[OF p] e by simp
  have "\<not> includesStr (a @ (w @ t2) @ u) PATCH_MARKER"
  proof
    assume "includesStr (a @ (w @ t2) @ u) PATCH_MARKER"
    then have "includesStr ((a @ w) @ t2 @ u) PATCH_MARKER" by simp
    from template_safe[OF t2ne hd(1) la ni this] show False
    proof
      assume "includesStr (a @ w) PATCH_MARKER"
      then have "includesStr ((a @ w) @ tl @ u) PATCH_MARKER" by (rule includes_prefix)
      then show False using n u w(2) by auto
    next
      assume "includesStr u PATCH_MARKER"
      then have "includesStr ((a @ rev acc) @ u) PATCH_MARKER" by (rule includes_suffix)
      then show False using n u by auto
    qed
  qed
  then show "acc \<noteq> [] \<and> \<not> includesStr (a @ substitute (Template cliExit_replacement) pre acc caps
                 (drop (length acc) s) @ drop (length acc) s) PATCH_MARKER"
    using ne unfolding d sub by simp
qed

lemma applyPatch_fst:
  "fst (applyPatch content nm (Pattern r) rp) = content
   \<or> fst (applyPatch content nm (Pattern r) rp) = replace content r rp"
  by (simp add: applyPatch_def Let_def)

lemma applyRules_fresh:
  assumes "\<And>x. \<forall>(nm, sp, rp) \<in> set rl. \<exists>r. sp = Pattern r \<and> noMatchIn r [] p x
      \<and> (\<forall>a pre s. \<not> includesStr (a @ s) g \<longrightarrow> \<not> includesStr (a @ replaceFrom r rp pre s) g)"
    and "\<not> includesStr x g"
  shows "\<exists>x'. fst (applyRules rl (p @ x) []) = p @ x' \<and> \<not> includesStr x' g"
  using assms
proof (induction rl arbitrary: x)
  case Nil
  then show ?case by simp
next
  case (Cons a rl)
  obtain nm sp rp where a: "a = (nm, sp, rp)" by (cases a) auto
  from Cons.prems(1)[of x] a obtain r where r: "sp = Pattern r" "noMatchIn r [] p x"
    and f: "\<And>a pre s. \<not> includesStr (a @ s) g \<Longrightarrow> \<not> includesStr (a @ replaceFrom r rp pre s) g"
    by auto
  have rep: "replace (p @ x) r rp = p @ replaceFrom r rp (rev p) x"
    using replaceFrom_skip[OF r(2), of rp] by (simp add: replace_def)
  have "\<not> includesStr ([] @ replaceFrom r rp (rev p) x) g"
    by (rule f) (simp add: Cons.prems(2))
  then have "\<exists>x1. fst (applyPatch (p @ x) nm (Pattern r) rp) = p @ x1 \<and> \<not> includesStr x1 g"
    using applyPatch_fst[of "p @ x" nm r rp] rep Cons.prems(2) by auto
  then obtain x1 where x1: "fst (applyPatch (p @ x) nm (Pattern r) rp) = p @ x1"
    and n1: "\<not> includesStr x1 g" by blast
  have "\<And>x. \<forall>(nm, sp, rp) \<in> set rl. \<exists>r. sp = Pattern r \<and> noMatchIn r [] p x
      \<and> (\<forall>a pre s. \<not> includesStr (a @ s) g \<longrightarrow> \<not> includesStr (a @ replaceFrom r rp pre s) g)"
    using Cons.prems(1) by simp
  from Cons.IH[OF this n1] show ?case unfolding a r(1) applyRules_Cons x1 by simp
qed

lemma rules_fresh:
  "\<forall>(nm, sp, rp) \<in> set rules. \<exists>r. sp = Pattern r
      \<and> (\<forall>a pre s. \<not> includesStr (a @ s) PATCH_MARKER
            \<longrightarrow> \<not> includesStr (a @ replaceFrom r rp pre s) PATCH_MARKER)"
  by (simp add: rules_def walkForTsConfig_fresh recusivelyResolveSync_fresh supportsColor_fresh supportsColor2_fresh bufferutil_fresh dotenvOptions_fresh dotenvConfig_fresh deferHomedir_fresh deferTmpdir_fresh lazyHomedir_fresh lazyTmpdir_fresh safeRegister_fresh configLoading_fresh schemaLoading_fresh cliExit_fresh)

lemma rules_keep_marked:
  assumes "plainShebang content"
  shows "\<forall>(nm, sp, rp) \<in> set rules. \<exists>r. sp = Pattern r
      \<and> noMatchIn r [] (markedPrefix content) x
      \<and> (\<forall>a pre s. \<not> includesStr (a @ s) PATCH_MARKER
            \<longrightarrow> \<not> includesStr (a @ replaceFrom r rp pre s) PATCH_MARKER)"
proof
  fix e
  assume e: "e \<in> set rules"
  obtain nm sp rp where p: "e = (nm, sp, rp)" by (cases e) auto
  from rules_keep_marked_prefix[OF assms, of x] e p obtain r where
    r: "sp = Pattern r" "noMatchIn r [] (markedPrefix content) x" by auto
  from rules_fresh e p obtain r' where
    r': "sp = Pattern r'" "\<forall>a pre s. \<not> includesStr (a @ s) PATCH_MARKER
            \<longrightarrow> \<not> includesStr (a @ replaceFrom r' rp pre s) PATCH_MARKER" by auto
  have "r' = r" using r(1) r'(1) by simp
  then show "case e of (nm, sp, rp) \<Rightarrow> \<exists>r. sp = Pattern r
      \<and> noMatchIn r [] (markedPrefix content) x
      \<and> (\<forall>a pre s. \<not> includesStr (a @ s) PATCH_MARKER
            \<longrightarrow> \<not> includesStr (a @ replaceFrom r rp pre s) PATCH_MARKER)"
    using p r r'(2) by simp
qed

lemma marked_once:
  assumes "\<not> includesStr content PATCH_MARKER" and "\<not> includesStr x PATCH_MARKER"
  shows "occurrences (markedPrefix content @ x) PATCH_MARKER = 1"
proof (cases "startsWith content ''#!'' \<and> CHR ''\<newline>'' \<in> set content")
  case False
  then have mp: "markedPrefix content = markerLine"
    unfolding markedPrefix_def by (rule if_not_P)
  show ?thesis unfolding mp using occurrences_zero[OF assms(2)] by (simp add: occurrences_marker_line)
next
  case True
  then have mp: "markedPrefix content @ x = firstLine content @ CHR ''\<newline>'' # markerLine @ x"
    by (simp add: markedPrefix_def afterLine_def)
  have c: "content = (firstLine content @ ''\<newline>'') @ drop (length (firstLine content) + 1) content"
    using firstLine_split[of content] True by simp
  have a: "\<not> includesStr (firstLine content @ ''\<newline>'') PATCH_MARKER"
    using assms(1) includes_prefix[of "firstLine content @ ''\<newline>''" PATCH_MARKER
        "drop (length (firstLine content) + 1) content"] c by auto
  have nl: "CHR ''\<newline>'' \<notin> set PATCH_MARKER" by (simp add: PATCH_MARKER_def)
  show ?thesis unfolding mp occurrences_skip_line[OF a nl] occurrences_marker_line
    using occurrences_zero[OF assms(2)] by simp
qed

lemma insertMarker_rest:
  assumes "\<not> includesStr content PATCH_MARKER"
  shows "\<exists>x. insertMarker content = markedPrefix content @ x \<and> \<not> includesStr x PATCH_MARKER"
proof (cases "startsWith content ''#!'' \<and> CHR ''\<newline>'' \<in> set content")
  case False
  then have mp: "markedPrefix content = markerLine"
    unfolding markedPrefix_def by (rule if_not_P)
  from False have "insertMarker content = markerLine @ content"
    unfolding insertMarker_shape by (rule if_not_P)
  then have "insertMarker content = markedPrefix content @ content" unfolding mp .
  then show ?thesis using assms by blast
next
  case True
  then have mp: "markedPrefix content = firstLine content @ afterLine"
    unfolding markedPrefix_def by (rule if_P)
  from True have "insertMarker content =
      firstLine content @ afterLine @ drop (length (firstLine content) + 1) content"
    unfolding insertMarker_shape by (rule if_P)
  then have im: "insertMarker content =
      markedPrefix content @ drop (length (firstLine content) + 1) content"
    unfolding mp by simp
  have c: "content = (firstLine content @ ''\<newline>'') @ drop (length (firstLine content) + 1) content"
    using firstLine_split[of content] True by simp
  have b: "\<not> includesStr (drop (length (firstLine content) + 1) content) PATCH_MARKER"
    using assms includes_suffix[of "drop (length (firstLine content) + 1) content" PATCH_MARKER
        "firstLine content @ ''\<newline>''"] c by auto
  show ?thesis using im b by blast
qed

lemma patched_marker_once:
  assumes "plainShebang content" and "\<not> includesStr content PATCH_MARKER"
  shows "\<exists>y. fst (applyRules rules (insertMarker content) []) = markedPrefix content @ y
           \<and> occurrences (markedPrefix content @ y) PATCH_MARKER = 1"
proof -
  from insertMarker_rest[OF assms(2)] obtain x where
    x: "insertMarker content = markedPrefix content @ x" "\<not> includesStr x PATCH_MARKER" by blast
  from applyRules_fresh[of rules "markedPrefix content" PATCH_MARKER x,
      OF rules_keep_marked[OF assms(1)] x(2)]
  obtain y where y: "fst (applyRules rules (markedPrefix content @ x) []) = markedPrefix content @ y"
    "\<not> includesStr y PATCH_MARKER" by blast
  show ?thesis using y(1) marked_once[OF assms(2) y(2)] unfolding x(1) by blast
qed


lemma exSpanning_unmarked: "\<not> includesStr exSpanning PATCH_MARKER"
  by code_simp

lemma exSpanningPatched_unmarked: "\<not> includesStr exSpanningPatched PATCH_MARKER"
  by code_simp

lemma exSpanning_rules:
  "applyRules rules (insertMarker exSpanning) [] =
     (exSpanningPatched,
      [\<lparr>name = ''walkForTsConfig'', success = True, error = None\<rparr>,
      \<lparr>name = ''recusivelyResolveSync'', success = False, error = Some ''Pattern not found''\<rparr>,
      \<lparr>name = ''stub _supportsColor (chalk)'', success = False, error = Some ''Pattern not found''\<rparr>,
      \<lparr>name = ''stub supportsColor2 (colors)'', success = False, error = Some ''Pattern not found''\<rparr>,
      \<lparr>name = ''skip bufferutil (ws)'', success = False, error = Some ''Pattern not found''\<rparr>,
      \<lparr>name = ''stub dotenv env-options'', success = False, error = Some ''Pattern not found''\<rparr>,
      \<lparr>name = ''stub dotenv config auto-call'', success = False, error = Some ''Pattern not found''\<rparr>,
      \<lparr>name = ''defer homedir (env-paths)'', success = False, error = Some ''Pattern not found''\<rparr>,
      \<lparr>name = ''defer tmpdir (env-paths)'', success = False, error = Some ''Pattern not found''\<rparr>,
      \<lparr>name = ''lazy homedir usage'', success = False, error = Some ''Pattern not found''\<rparr>,
      \<lparr>name = ''lazy tmpdir usage'', success = False, error = Some ''Pattern not found''\<rparr>,
      \<lparr>name = ''safeRegister (disable esbuild)'', success = True, error = None\<rparr>,
      \<lparr>name = configLoading_name, success = True, error = None\<rparr>,
      \<lparr>name = schemaLoading_name, success = True, error = None\<rparr>,
      \<lparr>name = ''CLI exit handler'', success = False, error = Some ''Pattern not found''\<rparr>])"
  by code_simp

lemma exSpanningPatched_results:
  "snd (applyRules rules (insertMarker exSpanningPatched) []) =
      [\<lparr>name = ''walkForTsConfig'', success = True, error = None\<rparr>,
      \<lparr>name = ''recusivelyResolveSync'', success = False, error = Some ''Pattern not found''\<rparr>,
      \<lparr>name = ''stub _supportsColor (chalk)'', success = False, error = Some ''Pattern not found''\<rparr>,
      \<lparr>name = ''stub supportsColor2 (colors)'', success = False, error = Some ''Pattern not found''\<rparr>,
      \<lparr>name = ''skip bufferutil (ws)'', success = False, error = Some ''Pattern not found''\<rparr>,
      \<lparr>name = ''stub dotenv env-options'', success = False, error = Some ''Pattern not found''\<rparr>,
      \<lparr>name = ''stub dotenv config auto-call'', success = False, error = Some ''Pattern not found''\<rparr>,
      \<lparr>name = ''defer homedir (env-paths)'', success = False, error = Some ''Pattern not found''\<rparr>,
      \<lparr>name = ''defer tmpdir (env-paths)'', success = False, error = Some ''Pattern not found''\<rparr>,
      \<lparr>name = ''lazy homedir usage'', success = False, error = Some ''Pattern not found''\<rparr>,
      \<lparr>name = ''lazy tmpdir usage'', success = False, error = Some ''Pattern not found''\<rparr>,
      \<lparr>name = ''safeRegister (disable esbuild)'', success = True, error = None\<rparr>,
      \<lparr>name = configLoading_name, success = False, error = Some ''Pattern not found''\<rparr>,
      \<lparr>name = schemaLoading_name, success = False, error = Some ''Pattern not found''\<rparr>,
      \<lparr>name = ''CLI exit handler'', success = False, error = Some ''Pattern not found''\<rparr>]"
  by code_simp

lemma run_marked:
  assumes "findDrizzleKitBin entries = Some (binPath, version)"
    and "fs binPath = Some content"
    and "includesStr content PATCH_MARKER"
  shows "patchDrizzleKit entries fs =
           \<lparr>outcome = Returned,
            console = [(Log, Found version binPath)]
              @ (if version \<notin> set SUPPORTED_VERSIONS \<and> version \<noteq> ''unknown''
                 then [(Warn, MayNotBeCompatible version), (Warn, AttemptingAnyway)] else [])
              @ [(Log, AlreadyPatched)],
            results = [], writes = []\<rparr>"
  using assms by (simp add: patchDrizzleKit_def patchFile_def Let_def)

lemma run_unmarked:
  assumes "findDrizzleKitBin entries = Some (binPath, version)"
    and "fs binPath = Some content"
    and "\<not> includesStr content PATCH_MARKER"
  shows "results (patchDrizzleKit entries fs) = snd (applyRules rules (insertMarker content) [])"
    and "filter (\<lambda>r. \<not> success r \<and> name r \<in> set criticalPatches)
           (snd (applyRules rules (insertMarker content) [])) \<noteq> [] \<Longrightarrow>
         writes (patchDrizzleKit entries fs) = [] \<and> outcome (patchDrizzleKit entries fs) = Exit 1
         \<and> last (console (patchDrizzleKit entries fs)) = (Error, CriticalFailed)"
    and "filter (\<lambda>r. \<not> success r \<and> name r \<in> set criticalPatches)
           (snd (applyRules rules (insertMarker content) [])) = [] \<Longrightarrow>
         writes (patchDrizzleKit entries fs) =
           [(binPath, fst (applyRules rules (insertMarker content) []))]
         \<and> outcome (patchDrizzleKit entries fs) = Returned"
proof -
  obtain patched rs where ar: "applyRules rules (insertMarker content) [] = (patched, rs)"
    by (cases "applyRules rules (insertMarker content) []") auto
  note pf = patchFile_rules[of fs binPath content patched rs version, OF assms(2) assms(3) ar]
  have run: "patchDrizzleKit entries fs = patchFile binPath version fs"
    using assms(1) by (rule patchDrizzleKit_found)
  show "results (patchDrizzleKit entries fs) = snd (applyRules rules (insertMarker content) [])"
    unfolding run using pf(1) ar by simp
  show "filter (\<lambda>r. \<not> success r \<and> name r \<in> set criticalPatches)
           (snd (applyRules rules (insertMarker content) [])) \<noteq> [] \<Longrightarrow>
         writes (patchDrizzleKit entries fs) = [] \<and> outcome (patchDrizzleKit entries fs) = Exit 1
         \<and> last (console (patchDrizzleKit entries fs)) = (Error, CriticalFailed)"
    unfolding run using pf(2) ar by simp
  show "filter (\<lambda>r. \<not> success r \<and> name r \<in> set criticalPatches)
           (snd (applyRules rules (insertMarker content) [])) = [] \<Longrightarrow>
         writes (patchDrizzleKit entries fs) =
           [(binPath, fst (applyRules rules (insertMarker content) []))]
         \<and> outcome (patchDrizzleKit entries fs) = Returned"
    unfolding run using pf(3) ar by simp
qed

lemma committed_writes:
  assumes "findDrizzleKitBin entries = Some (binPath, version)"
    and "fs binPath = Some content"
    and "writes (patchDrizzleKit entries fs) \<noteq> []"
  shows "\<not> includesStr content PATCH_MARKER"
    and "writes (patchDrizzleKit entries fs) =
           [(binPath, fst (applyRules rules (insertMarker content) []))]"
    and "outcome (patchDrizzleKit entries fs) = Returned"
proof -
  show m: "\<not> includesStr content PATCH_MARKER"
  proof
    assume "includesStr content PATCH_MARKER"
    from run_marked[where fs = fs and binPath = binPath, OF assms(1) assms(2) this] show False using assms(3) by simp
  qed
  have "filter (\<lambda>r. \<not> success r \<and> name r \<in> set criticalPatches)
           (snd (applyRules rules (insertMarker content) [])) = []"
    using run_unmarked(2)[where fs = fs and binPath = binPath, OF assms(1) assms(2) m] assms(3) by blast
  from run_unmarked(3)[where fs = fs and binPath = binPath, OF assms(1) assms(2) m this]
  show "writes (patchDrizzleKit entries fs) =
           [(binPath, fst (applyRules rules (insertMarker content) []))]"
    and "outcome (patchDrizzleKit entries fs) = Returned" by simp_all
qed

text \<open>
  C4, as stated. The first run on \<open>exSpanning\<close> commits, and the text it writes does
  not hold the marker: the match of the first rule begins on the shebang line and
  runs over the marker line. The second run is not stopped by the marker check: it
  applies the rules again, finds the second critical pattern gone and ends with
  \<^verbatim>\<open>Deno.exit(1)\<close>.
\<close>

theorem idempotence_counterexample:
  "writes (patchDrizzleKit exEntries [exPath \<mapsto> exSpanning]) = [(exPath, exSpanningPatched)]
   \<and> outcome (patchDrizzleKit exEntries [exPath \<mapsto> exSpanning]) = Returned
   \<and> \<not> includesStr exSpanningPatched PATCH_MARKER
   \<and> (Log, AlreadyPatched) \<notin> set (console (patchDrizzleKit exEntries [exPath \<mapsto> exSpanningPatched]))
   \<and> outcome (patchDrizzleKit exEntries [exPath \<mapsto> exSpanningPatched]) = Exit 1"
proof -
  have a: "[exPath \<mapsto> exSpanning] exPath = Some exSpanning" by simp
  have b: "[exPath \<mapsto> exSpanningPatched] exPath = Some exSpanningPatched" by simp
  have n1: "filter (\<lambda>r. \<not> success r \<and> name r \<in> set criticalPatches)
              (snd (applyRules rules (insertMarker exSpanning) [])) = []"
    unfolding exSpanning_rules
    by (simp add: criticalPatches_def configLoading_name_def schemaLoading_name_def)
  have n2: "filter (\<lambda>r. \<not> success r \<and> name r \<in> set criticalPatches)
              (snd (applyRules rules (insertMarker exSpanningPatched) [])) \<noteq> []"
    unfolding exSpanningPatched_results
    by (simp add: criticalPatches_def configLoading_name_def schemaLoading_name_def)
  have r1: "writes (patchDrizzleKit exEntries [exPath \<mapsto> exSpanning]) = [(exPath, exSpanningPatched)]
      \<and> outcome (patchDrizzleKit exEntries [exPath \<mapsto> exSpanning]) = Returned"
    using run_unmarked(3)[where fs = "[exPath \<mapsto> exSpanning]" and content = exSpanning and binPath = exPath,
        OF ex_found a exSpanning_unmarked n1]
    by (simp add: exSpanning_rules)
  have r2: "outcome (patchDrizzleKit exEntries [exPath \<mapsto> exSpanningPatched]) = Exit 1
      \<and> last (console (patchDrizzleKit exEntries [exPath \<mapsto> exSpanningPatched])) = (Error, CriticalFailed)"
    using run_unmarked(2)[where fs = "[exPath \<mapsto> exSpanningPatched]" and content = exSpanningPatched
        and binPath = exPath,
        OF ex_found b exSpanningPatched_unmarked n2]
    by simp
  have "patchDrizzleKit exEntries [exPath \<mapsto> exSpanningPatched]
          = patchFile exPath ''0.31.8'' [exPath \<mapsto> exSpanningPatched]"
    using ex_found by (rule patchDrizzleKit_found)
  then have r3: "(Log, AlreadyPatched) \<notin> set (console (patchDrizzleKit exEntries [exPath \<mapsto> exSpanningPatched]))"
    using exSpanningPatched_unmarked
    by (auto simp: patchFile_def Let_def printResult_def split: prod.splits option.splits)
  show ?thesis using r1 r2 r3 exSpanningPatched_unmarked by simp
qed

text \<open>
  C4, amended. For every artifact whose shebang line, if it has one, holds neither
  \<^verbatim>\<open>(\<close> nor \<^verbatim>\<open>@\<close>: when a first run commits, the text it writes holds the marker, and
  a second run on the files the first run left reports that the artifact is already
  patched, applies no rule, writes nothing and returns, so the text stays as the
  first run wrote it.
\<close>

theorem idempotence:
  assumes "findDrizzleKitBin entries = Some (binPath, version)"
    and "fs binPath = Some content"
    and "plainShebang content"
    and "writes (patchDrizzleKit entries fs) \<noteq> []"
  shows "writeAll (writes (patchDrizzleKit entries fs)) fs =
           fs(binPath \<mapsto> fst (applyRules rules (insertMarker content) []))
       \<and> includesStr (fst (applyRules rules (insertMarker content) [])) PATCH_MARKER
       \<and> results (patchDrizzleKit entries (writeAll (writes (patchDrizzleKit entries fs)) fs)) = []
       \<and> writes (patchDrizzleKit entries (writeAll (writes (patchDrizzleKit entries fs)) fs)) = []
       \<and> outcome (patchDrizzleKit entries (writeAll (writes (patchDrizzleKit entries fs)) fs)) = Returned
       \<and> last (console (patchDrizzleKit entries (writeAll (writes (patchDrizzleKit entries fs)) fs)))
           = (Log, AlreadyPatched)
       \<and> writeAll (writes (patchDrizzleKit entries (writeAll (writes (patchDrizzleKit entries fs)) fs)))
           (writeAll (writes (patchDrizzleKit entries fs)) fs)
           = writeAll (writes (patchDrizzleKit entries fs)) fs"
proof -
  note cw = committed_writes[where fs = fs and binPath = binPath, OF assms(1) assms(2) assms(4)]
  have w: "writeAll (writes (patchDrizzleKit entries fs)) fs =
           fs(binPath \<mapsto> fst (applyRules rules (insertMarker content) []))"
    unfolding cw(2) by simp
  have m: "includesStr (fst (applyRules rules (insertMarker content) [])) PATCH_MARKER"
    using assms(3) by (rule patched_includes_marker)
  have rd: "(fs(binPath \<mapsto> fst (applyRules rules (insertMarker content) []))) binPath
              = Some (fst (applyRules rules (insertMarker content) []))" by simp
  note second = run_marked[where fs = "fs(binPath \<mapsto> fst (applyRules rules (insertMarker content) []))"
      and binPath = binPath, OF assms(1) rd m]
  show ?thesis unfolding w second using m by simp
qed

theorem idempotence_witness:
  "findDrizzleKitBin exEntries = Some (exPath, ''0.31.8'')
   \<and> [exPath \<mapsto> exBundle] exPath = Some exBundle
   \<and> plainShebang exBundle
   \<and> writes (patchDrizzleKit exEntries [exPath \<mapsto> exBundle]) = [(exPath, exPatched)]
   \<and> includesStr exPatched PATCH_MARKER
   \<and> writes (patchDrizzleKit exEntries [exPath \<mapsto> exPatched]) = []
   \<and> outcome (patchDrizzleKit exEntries [exPath \<mapsto> exPatched]) = Returned"
proof -
  have a: "[exPath \<mapsto> exBundle] exPath = Some exBundle" by simp
  have p: "plainShebang exBundle"
    by (simp add: plainShebang_def firstLine_def exBundle_def)
  have n1: "filter (\<lambda>r. \<not> success r \<and> name r \<in> set criticalPatches)
              (snd (applyRules rules (insertMarker exBundle) [])) = []"
    unfolding exBundle_rules
    by (simp add: criticalPatches_def configLoading_name_def schemaLoading_name_def)
  have w: "writes (patchDrizzleKit exEntries [exPath \<mapsto> exBundle]) = [(exPath, exPatched)]"
    using run_unmarked(3)[where fs = "[exPath \<mapsto> exBundle]" and content = exBundle and binPath = exPath,
        OF ex_found a exBundle_unmarked n1]
    by (simp add: exBundle_rules)
  then have ne: "writes (patchDrizzleKit exEntries [exPath \<mapsto> exBundle]) \<noteq> []" by simp
  have fsw: "writeAll [(exPath, exPatched)] [exPath \<mapsto> exBundle] = [exPath \<mapsto> exPatched]" by simp
  note th = idempotence[where entries = exEntries and binPath = exPath and fs = "[exPath \<mapsto> exBundle]"
      and content = exBundle, OF ex_found a p ne]
  have s: "writes (patchDrizzleKit exEntries [exPath \<mapsto> exPatched]) = []
      \<and> outcome (patchDrizzleKit exEntries [exPath \<mapsto> exPatched]) = Returned"
    using th unfolding w fsw by blast
  show ?thesis
    by (intro conjI ex_found a p w exPatched_marked) (simp_all add: s)
qed

text \<open>
  C5, as stated. The run on \<open>exSpanning\<close> commits and the text it writes holds the
  marker zero times. And for a text that is one shebang line with no newline,
  the marker goes before the shebang, not after it.
\<close>

theorem marker_insertion_counterexample:
  "writes (patchDrizzleKit exEntries [exPath \<mapsto> exSpanning]) = [(exPath, exSpanningPatched)]
   \<and> occurrences exSpanningPatched PATCH_MARKER = 0
   \<and> startsWith ''#!/usr/bin/env node'' ''#!''
   \<and> insertMarker ''#!/usr/bin/env node'' = PATCH_MARKER @ ''\<newline>#!/usr/bin/env node''"
proof -
  have a: "[exPath \<mapsto> exSpanning] exPath = Some exSpanning" by simp
  have n1: "filter (\<lambda>r. \<not> success r \<and> name r \<in> set criticalPatches)
              (snd (applyRules rules (insertMarker exSpanning) [])) = []"
    unfolding exSpanning_rules
    by (simp add: criticalPatches_def configLoading_name_def schemaLoading_name_def)
  have r1: "writes (patchDrizzleKit exEntries [exPath \<mapsto> exSpanning]) = [(exPath, exSpanningPatched)]"
    using run_unmarked(3)[where fs = "[exPath \<mapsto> exSpanning]" and content = exSpanning and binPath = exPath,
        OF ex_found a exSpanning_unmarked n1]
    by (simp add: exSpanning_rules)
  have o: "occurrences exSpanningPatched PATCH_MARKER = 0"
    using exSpanningPatched_unmarked by (rule occurrences_zero)
  have i: "startsWith ''#!/usr/bin/env node'' ''#!''
      \<and> insertMarker ''#!/usr/bin/env node'' = PATCH_MARKER @ ''\<newline>#!/usr/bin/env node''"
    by code_simp
  show ?thesis using r1 o i by simp
qed

text \<open>
  C5, amended. The marker is inserted before the first rule runs: right after the
  first line when the content starts with \<^verbatim>\<open>#!\<close> and has a newline, at the very start
  when the content does not start with \<^verbatim>\<open>#!\<close>. The buffer the rules receive holds the
  marker exactly once. For every run that commits on an artifact whose shebang line,
  if it has one, holds neither \<^verbatim>\<open>(\<close> nor \<^verbatim>\<open>@\<close>, the text written begins with the
  same lines up to and with the marker line, and it holds the marker exactly once.
\<close>

theorem marker_insertion:
  "(startsWith content ''#!'' \<and> CHR ''\<newline>'' \<in> set content \<longrightarrow>
      insertMarker content =
        firstLine content @ ''\<newline>'' @ PATCH_MARKER @ ''\<newline>''
          @ drop (length (firstLine content) + 1) content
      \<and> content = firstLine content @ ''\<newline>'' @ drop (length (firstLine content) + 1) content)
   \<and> (\<not> startsWith content ''#!'' \<longrightarrow> insertMarker content = PATCH_MARKER @ ''\<newline>'' @ content)
   \<and> (\<not> includesStr content PATCH_MARKER \<longrightarrow>
        occurrences (insertMarker content) PATCH_MARKER = 1)
   \<and> (findDrizzleKitBin entries = Some (binPath, version) \<and> fs binPath = Some content
        \<and> \<not> includesStr content PATCH_MARKER \<longrightarrow>
        results (patchDrizzleKit entries fs) = snd (applyRules rules (insertMarker content) []))
   \<and> (findDrizzleKitBin entries = Some (binPath, version) \<and> fs binPath = Some content
        \<and> plainShebang content \<and> writes (patchDrizzleKit entries fs) \<noteq> [] \<longrightarrow>
        (\<exists>x y. insertMarker content = markedPrefix content @ x
            \<and> writes (patchDrizzleKit entries fs) = [(binPath, markedPrefix content @ y)]
            \<and> occurrences (markedPrefix content @ y) PATCH_MARKER = 1)
        \<and> includesStr (markedPrefix content) PATCH_MARKER)"
proof -
  have a: "startsWith content ''#!'' \<and> CHR ''\<newline>'' \<in> set content \<longrightarrow>
      insertMarker content =
        firstLine content @ ''\<newline>'' @ PATCH_MARKER @ ''\<newline>''
          @ drop (length (firstLine content) + 1) content
      \<and> content = firstLine content @ ''\<newline>'' @ drop (length (firstLine content) + 1) content"
    using firstLine_split[of content]
    by (simp add: insertMarker_shape afterLine_def markerLine_def)
  have b: "\<not> startsWith content ''#!'' \<longrightarrow> insertMarker content = PATCH_MARKER @ ''\<newline>'' @ content"
    by (simp add: insertMarker_shape markerLine_def)
  have c: "\<not> includesStr content PATCH_MARKER \<longrightarrow>
        occurrences (insertMarker content) PATCH_MARKER = 1"
    using insertMarker_once by blast
  have d: "findDrizzleKitBin entries = Some (binPath, version) \<and> fs binPath = Some content
        \<and> \<not> includesStr content PATCH_MARKER \<longrightarrow>
        results (patchDrizzleKit entries fs) = snd (applyRules rules (insertMarker content) [])"
    using run_unmarked(1)[of entries binPath version fs content] by blast
  have e: "findDrizzleKitBin entries = Some (binPath, version) \<and> fs binPath = Some content
        \<and> plainShebang content \<and> writes (patchDrizzleKit entries fs) \<noteq> [] \<longrightarrow>
        (\<exists>x y. insertMarker content = markedPrefix content @ x
            \<and> writes (patchDrizzleKit entries fs) = [(binPath, markedPrefix content @ y)]
            \<and> occurrences (markedPrefix content @ y) PATCH_MARKER = 1)
        \<and> includesStr (markedPrefix content) PATCH_MARKER"
  proof
    assume h: "findDrizzleKitBin entries = Some (binPath, version) \<and> fs binPath = Some content
        \<and> plainShebang content \<and> writes (patchDrizzleKit entries fs) \<noteq> []"
    then have f: "findDrizzleKitBin entries = Some (binPath, version)"
      and r: "fs binPath = Some content" and p: "plainShebang content"
      and w: "writes (patchDrizzleKit entries fs) \<noteq> []" by simp_all
    note cw = committed_writes[where fs = fs and binPath = binPath, OF f r w]
    obtain x where x: "insertMarker content = markedPrefix content @ x"
      using insertMarker_prefix by blast
    obtain y where y: "fst (applyRules rules (insertMarker content) []) = markedPrefix content @ y"
      and o: "occurrences (markedPrefix content @ y) PATCH_MARKER = 1"
      using patched_marker_once[OF p cw(1)] by blast
    obtain u where u: "markedPrefix content = u @ PATCH_MARKER @ ''\<newline>''"
      using markedPrefix_marker by blast
    have i: "includesStr (markedPrefix content) PATCH_MARKER"
      unfolding includesStr_iff using u by blast
    have "insertMarker content = markedPrefix content @ x
            \<and> writes (patchDrizzleKit entries fs) = [(binPath, markedPrefix content @ y)]
            \<and> occurrences (markedPrefix content @ y) PATCH_MARKER = 1"
      using x y o cw(2) by simp
    then show "(\<exists>x y. insertMarker content = markedPrefix content @ x
            \<and> writes (patchDrizzleKit entries fs) = [(binPath, markedPrefix content @ y)]
            \<and> occurrences (markedPrefix content @ y) PATCH_MARKER = 1)
        \<and> includesStr (markedPrefix content) PATCH_MARKER"
      using i by blast
  qed
  show ?thesis using a b c d e by blast
qed


theorem marker_insertion_witness:
  "startsWith exBundle ''#!'' \<and> CHR ''\<newline>'' \<in> set exBundle
   \<and> \<not> includesStr exBundle PATCH_MARKER \<and> plainShebang exBundle
   \<and> findDrizzleKitBin exEntries = Some (exPath, ''0.31.8'')
   \<and> [exPath \<mapsto> exBundle] exPath = Some exBundle
   \<and> insertMarker exBundle =
       ''#!/usr/bin/env node\<newline>// DRIZZLE-KIT-DENO-PATCHED-V10\<newline>safeRegister = async () => {\<newline>const required = require(`${path}`);\<newline>const i0 = require(`${it}`);\<newline>''
   \<and> occurrences (insertMarker exBundle) PATCH_MARKER = 1
   \<and> writes (patchDrizzleKit exEntries [exPath \<mapsto> exBundle]) = [(exPath, exPatched)]
   \<and> markedPrefix exBundle = ''#!/usr/bin/env node\<newline>// DRIZZLE-KIT-DENO-PATCHED-V10\<newline>''
   \<and> startsWith exPatched (markedPrefix exBundle)
   \<and> occurrences exPatched PATCH_MARKER = 1"
proof -
  have s: "startsWith exBundle ''#!'' \<and> CHR ''\<newline>'' \<in> set exBundle"
    by (simp add: exBundle_def)
  have a: "[exPath \<mapsto> exBundle] exPath = Some exBundle" by simp
  have p: "plainShebang exBundle"
    by (simp add: plainShebang_def firstLine_def exBundle_def)
  have n1: "filter (\<lambda>r. \<not> success r \<and> name r \<in> set criticalPatches)
              (snd (applyRules rules (insertMarker exBundle) [])) = []"
    unfolding exBundle_rules
    by (simp add: criticalPatches_def configLoading_name_def schemaLoading_name_def)
  have w: "writes (patchDrizzleKit exEntries [exPath \<mapsto> exBundle]) = [(exPath, exPatched)]"
    using run_unmarked(3)[where fs = "[exPath \<mapsto> exBundle]" and content = exBundle and binPath = exPath,
        OF ex_found a exBundle_unmarked n1]
    by (simp add: exBundle_rules)
  then have ne: "writes (patchDrizzleKit exEntries [exPath \<mapsto> exBundle]) \<noteq> []" by simp
  note th = marker_insertion[of exBundle exEntries exPath "''0.31.8''" "[exPath \<mapsto> exBundle]"]
  have fl: "firstLine exBundle = ''#!/usr/bin/env node''"
    by (simp add: firstLine_def exBundle_def)
  have e: "firstLine exBundle @ ''\<newline>'' @ PATCH_MARKER @ ''\<newline>''
          @ drop (length (firstLine exBundle) + 1) exBundle =
       ''#!/usr/bin/env node\<newline>// DRIZZLE-KIT-DENO-PATCHED-V10\<newline>safeRegister = async () => {\<newline>const required = require(`${path}`);\<newline>const i0 = require(`${it}`);\<newline>''"
    by (simp add: firstLine_def exBundle_def PATCH_MARKER_def)
  have h: "insertMarker exBundle =
        firstLine exBundle @ ''\<newline>'' @ PATCH_MARKER @ ''\<newline>''
          @ drop (length (firstLine exBundle) + 1) exBundle"
    using th s by blast
  have i: "insertMarker exBundle =
       ''#!/usr/bin/env node\<newline>// DRIZZLE-KIT-DENO-PATCHED-V10\<newline>safeRegister = async () => {\<newline>const required = require(`${path}`);\<newline>const i0 = require(`${it}`);\<newline>''"
    by (rule trans[OF h e])
  have o: "occurrences (insertMarker exBundle) PATCH_MARKER = 1"
    using th exBundle_unmarked by blast
  have "\<exists>x y. insertMarker exBundle = markedPrefix exBundle @ x
            \<and> writes (patchDrizzleKit exEntries [exPath \<mapsto> exBundle])
                = [(exPath, markedPrefix exBundle @ y)]
            \<and> occurrences (markedPrefix exBundle @ y) PATCH_MARKER = 1"
    using th ex_found a p ne by blast
  then obtain y where y: "exPatched = markedPrefix exBundle @ y"
    and oy: "occurrences (markedPrefix exBundle @ y) PATCH_MARKER = 1" unfolding w by auto
  have sw: "startsWith exPatched (markedPrefix exBundle)"
    unfolding startsWith_iff using y by blast
  have op: "occurrences exPatched PATCH_MARKER = 1" using oy unfolding y .
  have mp: "markedPrefix exBundle = ''#!/usr/bin/env node\<newline>// DRIZZLE-KIT-DENO-PATCHED-V10\<newline>''"
    using s unfolding markedPrefix_def fl
    by (simp add: afterLine_def markerLine_def PATCH_MARKER_def)
  show ?thesis
    using s exBundle_unmarked p ex_found a i o w mp sw op by blast
qed


section \<open>The first rule\<close>


























end
